theory Spec2Isabelle
  imports Main
begin

unbundle bit_operations_syntax

section \<open>Python values used by the package\<close>

text \<open>
  Python integers are unbounded, so they are \<open>int\<close>; \<open>x << k\<close> is \<open>push_bit k x\<close>,
  \<open>x >> k\<close> is \<open>drop_bit k x\<close> (both floor, two's complement, as in Python), and
  \<open>&\<close>, \<open>|\<close>, \<open>~\<close> are \<open>AND\<close>, \<open>OR\<close>, \<open>NOT\<close>.  A shift by a negative count raises
  \<open>ValueError\<close> in Python; the loops below test for the one count that can be negative.

  The exceptions of \<open>bit_value.py\<close> together with the two built-in exceptions that the
  indexing and the stores of a \<open>bytearray\<close> can raise.
\<close>

datatype error = InvalidBitCountError | EndOfStreamError | ValueError | IndexError

text \<open>\<open>buf[i]\<close> on a \<open>bytearray\<close>: a negative index counts from the end.\<close>

definition bytearray_index :: "int list \<Rightarrow> int \<Rightarrow> nat option" where
  "bytearray_index buf i =
     (if 0 \<le> i \<and> i < int (length buf) then Some (nat i)
      else if i < 0 \<and> - int (length buf) \<le> i then Some (nat (int (length buf) + i))
      else None)"

definition bytearray_get :: "int list \<Rightarrow> int \<Rightarrow> error + int" where
  "bytearray_get buf i =
     (case bytearray_index buf i of None \<Rightarrow> Inl IndexError | Some j \<Rightarrow> Inr (buf ! j))"

text \<open>\<open>buf[i] = v\<close>: the index is checked first, then that \<open>v\<close> is in \<open>range(256)\<close>.\<close>

definition bytearray_set :: "int list \<Rightarrow> int \<Rightarrow> int \<Rightarrow> error + int list" where
  "bytearray_set buf i v =
     (case bytearray_index buf i of
        None \<Rightarrow> Inl IndexError
      | Some j \<Rightarrow> if v < 0 \<or> 255 < v then Inl ValueError else Inr (buf[j := v]))"

section \<open>BitValue (bit\_value.py)\<close>

record bit_value =
  bv_value :: int
  bv_bit_count :: int
  bv_is_signed :: bool

text \<open>\<open>int.bit_length()\<close>: the number of bits of the absolute value.\<close>

fun nat_bit_length :: "nat \<Rightarrow> nat" where
  "nat_bit_length n = (if n = 0 then 0 else Suc (nat_bit_length (n div 2)))"

declare nat_bit_length.simps [simp del]

definition int_bit_length :: "int \<Rightarrow> int" where
  "int_bit_length v = int (nat_bit_length (nat \<bar>v\<bar>))"

text \<open>
  \<open>BitValue.__init__(value, bit_count)\<close> for an integer \<open>value\<close> (the copy constructor
  from another \<open>BitValue\<close> copies the three fields and is not needed below).
  The signedness is not a parameter: it is \<open>value < 0\<close>.
\<close>

definition BitValue_init :: "int \<Rightarrow> int option \<Rightarrow> error + bit_value" where
  "BitValue_init v bit_count_opt =
     (let is_signed = (v < 0);
          bit_count = (case bit_count_opt of
                         Some n \<Rightarrow> n
                       | None \<Rightarrow> if is_signed then int_bit_length v + 1
                                 else max 1 (int_bit_length v))
      in if bit_count \<le> 0 \<or> bit_count > 128 then Inl InvalidBitCountError
         else if is_signed then
           (let min_value = - push_bit (nat (bit_count - 1)) 1;
                max_value = push_bit (nat (bit_count - 1)) 1 - 1
            in if v < min_value \<or> v > max_value then Inl ValueError
               else Inr \<lparr>bv_value = v, bv_bit_count = bit_count, bv_is_signed = is_signed\<rparr>)
         else
           (let max_value = push_bit (nat bit_count) 1 - 1
            in if v < 0 \<or> v > max_value then Inl ValueError
               else Inr \<lparr>bv_value = v, bv_bit_count = bit_count, bv_is_signed = is_signed\<rparr>))"

section \<open>BitStream (bit\_stream.py)\<close>

record bit_stream =
  bs_buffer :: "int list"
  bs_byte_pos :: int
  bs_bit_pos :: int
  bs_bit_length :: int

definition BitStream_init :: "int list option \<Rightarrow> bit_stream" where
  "BitStream_init data =
     (let buf = (case data of None \<Rightarrow> [] | Some d \<Rightarrow> d)
      in \<lparr>bs_buffer = buf, bs_byte_pos = 0, bs_bit_pos = 0,
          bs_bit_length = int (length buf) * 8\<rparr>)"

definition position :: "bit_stream \<Rightarrow> int" where
  "position s = bs_byte_pos s * 8 + bs_bit_pos s"

definition set_position :: "bit_stream \<Rightarrow> int \<Rightarrow> (error + unit) \<times> bit_stream" where
  "set_position s p =
     (if p > bs_bit_length s then (Inl EndOfStreamError, s)
      else (Inr (), s\<lparr>bs_byte_pos := p div 8, bs_bit_pos := p mod 8\<rparr>))"

definition reset :: "bit_stream \<Rightarrow> bit_stream" where
  "reset s = s\<lparr>bs_byte_pos := 0, bs_bit_pos := 0\<rparr>"

definition from_bytes :: "bit_stream \<Rightarrow> int list \<Rightarrow> bit_stream" where
  "from_bytes s data =
     s\<lparr>bs_buffer := data, bs_byte_pos := 0, bs_bit_pos := 0,
       bs_bit_length := int (length data) * 8\<rparr>"

text \<open>
  The \<open>while bits_read < bit_count\<close> loop of \<open>BitStream.read_bits\<close>.  The state at
  the moment of a raise is returned with the error, so that what a failed call leaves
  behind can be stated.
\<close>

function BitStream_read_loop ::
  "int \<Rightarrow> bit_stream \<Rightarrow> int \<Rightarrow> int \<Rightarrow> (error + int) \<times> bit_stream" where
  "BitStream_read_loop bit_count s result bits_read =
     (if bits_read < bit_count then
        (if bs_byte_pos s \<ge> int (length (bs_buffer s)) then
           (if bits_read = 0 then (Inl EndOfStreamError, s) else (Inr result, s))
         else
           (case bytearray_get (bs_buffer s) (bs_byte_pos s) of
              Inl e \<Rightarrow> (Inl e, s)
            | Inr current_byte \<Rightarrow>
               (let bits_left_in_byte = 8 - bs_bit_pos s;
                    bits_to_read = min (bit_count - bits_read) bits_left_in_byte
                in if bits_to_read < 0 then (Inl ValueError, s)
                   else
                    (let mask = push_bit (nat bits_to_read) 1 - 1;
                         shift = bits_left_in_byte - bits_to_read;
                         extracted_bits = drop_bit (nat shift) current_byte AND mask;
                         result' = result OR
                           push_bit (nat (bit_count - bits_read - bits_to_read)) extracted_bits;
                         bits_read' = bits_read + bits_to_read;
                         bit_pos' = bs_bit_pos s + bits_to_read;
                         s' = (if bit_pos' = 8
                               then s\<lparr>bs_byte_pos := bs_byte_pos s + 1, bs_bit_pos := 0\<rparr>
                               else s\<lparr>bs_bit_pos := bit_pos'\<rparr>)
                     in BitStream_read_loop bit_count s' result' bits_read'))))
      else (Inr result, s))"
  by pat_completeness auto
termination
  by (relation "measure (\<lambda>(bit_count, s, result, bits_read).
        nat (2 * (bit_count - bits_read)) + (if bs_bit_pos s = 8 then 1 else 0))")
     (auto simp: min_def split: if_splits)

declare BitStream_read_loop.simps [simp del]

definition BitStream_read_bits :: "bit_stream \<Rightarrow> int \<Rightarrow> (error + int) \<times> bit_stream" where
  "BitStream_read_bits s bit_count =
     (if bit_count \<le> 0 \<or> bit_count > 64 then (Inl InvalidBitCountError, s)
      else if position s + bit_count > bs_bit_length s then (Inl EndOfStreamError, s)
      else BitStream_read_loop bit_count s 0 0)"

definition BitStream_read_bits_u128 ::
  "bit_stream \<Rightarrow> int \<Rightarrow> (error + int) \<times> bit_stream" where
  "BitStream_read_bits_u128 s bit_count =
     (if bit_count \<le> 0 \<or> bit_count > 128 then (Inl InvalidBitCountError, s)
      else if bit_count \<le> 64 then BitStream_read_bits s bit_count
      else if position s + bit_count > bs_bit_length s then (Inl EndOfStreamError, s)
      else
        (let high_bits = bit_count - 64
         in case BitStream_read_bits s high_bits of
              (Inl e, s1) \<Rightarrow> (Inl e, s1)
            | (Inr high_value, s1) \<Rightarrow>
               (case BitStream_read_bits s1 64 of
                  (Inl e, s2) \<Rightarrow> (Inl e, s2)
                | (Inr low_value, s2) \<Rightarrow> (Inr (push_bit 64 high_value OR low_value), s2))))"

text \<open>\<open>buf[i] &= m\<close> and \<open>buf[i] |= x\<close>: read the byte, combine, store it back.\<close>

definition bytearray_iand :: "int list \<Rightarrow> int \<Rightarrow> int \<Rightarrow> error + int list" where
  "bytearray_iand buf i m =
     (case bytearray_get buf i of Inl e \<Rightarrow> Inl e | Inr b \<Rightarrow> bytearray_set buf i (b AND m))"

definition bytearray_ior :: "int list \<Rightarrow> int \<Rightarrow> int \<Rightarrow> error + int list" where
  "bytearray_ior buf i x =
     (case bytearray_get buf i of Inl e \<Rightarrow> Inl e | Inr b \<Rightarrow> bytearray_set buf i (b OR x))"

text \<open>
  The \<open>while bits_written < bit_count\<close> loop of \<open>BitStream.write_bits\<close>.  The two
  stores into the current byte happen one after the other, as in the source.
\<close>

function BitStream_write_loop ::
  "int \<Rightarrow> int \<Rightarrow> bit_stream \<Rightarrow> int \<Rightarrow> (error + unit) \<times> bit_stream" where
  "BitStream_write_loop v bit_count s bits_written =
     (if bits_written < bit_count then
        (let bits_left_in_byte = 8 - bs_bit_pos s;
             bits_to_write = min (bit_count - bits_written) bits_left_in_byte
         in if bits_to_write < 0 then (Inl ValueError, s)
            else
             (let shift = bit_count - bits_written - bits_to_write;
                  mask = push_bit (nat shift) (push_bit (nat bits_to_write) 1 - 1);
                  extracted_bits = drop_bit (nat shift) (v AND mask);
                  byte_shift = bits_left_in_byte - bits_to_write;
                  byte_mask =
                    NOT (push_bit (nat byte_shift) (push_bit (nat bits_to_write) 1 - 1)) AND 0xFF
              in case bytearray_iand (bs_buffer s) (bs_byte_pos s) byte_mask of
                   Inl e \<Rightarrow> (Inl e, s)
                 | Inr buf1 \<Rightarrow>
                    (case bytearray_ior buf1 (bs_byte_pos s)
                            (push_bit (nat byte_shift) extracted_bits) of
                       Inl e \<Rightarrow> (Inl e, s\<lparr>bs_buffer := buf1\<rparr>)
                     | Inr buf2 \<Rightarrow>
                        (let bits_written' = bits_written + bits_to_write;
                             bit_pos' = bs_bit_pos s + bits_to_write;
                             s' = (if bit_pos' = 8
                                   then s\<lparr>bs_buffer := buf2,
                                          bs_byte_pos := bs_byte_pos s + 1, bs_bit_pos := 0\<rparr>
                                   else s\<lparr>bs_buffer := buf2, bs_bit_pos := bit_pos'\<rparr>)
                         in BitStream_write_loop v bit_count s' bits_written'))))
      else (Inr (), s))"
  by pat_completeness auto
termination
  by (relation "measure (\<lambda>(v, bit_count, s, bits_written).
        nat (2 * (bit_count - bits_written)) + (if bs_bit_pos s = 8 then 1 else 0))")
     (auto simp: min_def split: if_splits)

declare BitStream_write_loop.simps [simp del]

definition BitStream_write_bits ::
  "bit_stream \<Rightarrow> int \<Rightarrow> int \<Rightarrow> (error + unit) \<times> bit_stream" where
  "BitStream_write_bits s v bit_count =
     (if bit_count \<le> 0 \<or> bit_count > 64 then (Inl InvalidBitCountError, s)
      else
        (let required_bytes = (position s + bit_count + 7) div 8;
             s1 = (if required_bytes > int (length (bs_buffer s))
                   then s\<lparr>bs_buffer := bs_buffer s @
                            replicate (nat (required_bytes - int (length (bs_buffer s)))) 0\<rparr>
                   else s)
         in case BitStream_write_loop v bit_count s1 0 of
              (Inl e, s2) \<Rightarrow> (Inl e, s2)
            | (Inr u, s2) \<Rightarrow>
               (let new_position = position s2
                in (Inr (), if new_position > bs_bit_length s2
                            then s2\<lparr>bs_bit_length := new_position\<rparr> else s2))))"

definition BitStream_write_bits_u128 ::
  "bit_stream \<Rightarrow> int \<Rightarrow> int \<Rightarrow> (error + unit) \<times> bit_stream" where
  "BitStream_write_bits_u128 s v bit_count =
     (if bit_count \<le> 0 \<or> bit_count > 128 then (Inl InvalidBitCountError, s)
      else if bit_count \<le> 64 then BitStream_write_bits s v bit_count
      else
        (let high_bits = bit_count - 64;
             high_value = drop_bit 64 v;
             low_value = v AND (push_bit 64 1 - 1)
         in case BitStream_write_bits s high_value high_bits of
              (Inl e, s1) \<Rightarrow> (Inl e, s1)
            | (Inr u, s1) \<Rightarrow> BitStream_write_bits s1 low_value 64))"

text \<open>
  \<open>BitStream.read_bit_value\<close>: both branches reinterpret the raw value and pass it to
  the \<open>BitValue\<close> constructor, which takes no signedness argument.
\<close>

definition BitStream_read_bit_value ::
  "bit_stream \<Rightarrow> int \<Rightarrow> bool \<Rightarrow> (error + bit_value) \<times> bit_stream" where
  "BitStream_read_bit_value s bit_count is_signed =
     (case (if bit_count \<le> 64 then BitStream_read_bits s bit_count
            else BitStream_read_bits_u128 s bit_count) of
        (Inl e, s1) \<Rightarrow> (Inl e, s1)
      | (Inr raw, s1) \<Rightarrow>
         (let v = (if is_signed \<and> raw AND push_bit (nat (bit_count - 1)) 1 \<noteq> 0
                   then raw - push_bit (nat bit_count) 1 else raw)
          in case BitValue_init v (Some bit_count) of
               Inl e \<Rightarrow> (Inl e, s1)
             | Inr bv \<Rightarrow> (Inr bv, s1)))"

text \<open>The calls of \<open>read_bits\<close> one after the other on the same stream, with each outcome.\<close>

fun BitStream_read_sequence :: "bit_stream \<Rightarrow> int list \<Rightarrow> (error + int) list" where
  "BitStream_read_sequence s [] = []"
| "BitStream_read_sequence s (n # ns) =
     (case BitStream_read_bits s n of (r, s') \<Rightarrow> r # BitStream_read_sequence s' ns)"

section \<open>The external byte source and sink\<close>

text \<open>
  The reader and the writer borrow a binary stream that is not part of the package.
  The tests pass an \<open>io.BytesIO\<close>, which is what is modelled here: a source is its
  content with a read position, \<open>read(k)\<close> returns at most \<open>k\<close> bytes from the
  position and advances it, a relative \<open>seek\<close> clamps at 0; a sink that is only ever
  written to is the list of the bytes received so far, and its \<open>flush()\<close> does nothing.
\<close>

record byte_source =
  src_data :: "int list"
  src_pos :: nat

definition source_read :: "byte_source \<Rightarrow> nat \<Rightarrow> int list \<times> byte_source" where
  "source_read src k =
     (let out = take k (drop (src_pos src) (src_data src))
      in (out, src\<lparr>src_pos := src_pos src + length out\<rparr>))"

definition source_seek_cur :: "byte_source \<Rightarrow> int \<Rightarrow> byte_source" where
  "source_seek_cur src off = src\<lparr>src_pos := nat (int (src_pos src) + off)\<rparr>"

section \<open>BitStreamReader (bit\_stream\_reader.py)\<close>

record bit_stream_reader =
  rd_stream :: byte_source
  rd_buffer :: "int list"
  rd_byte_pos :: int
  rd_bit_pos :: int
  rd_buffer_size :: int
  rd_eof :: bool

definition BitStreamReader_init :: "byte_source \<Rightarrow> nat \<Rightarrow> bit_stream_reader" where
  "BitStreamReader_init stream buffer_size =
     \<lparr>rd_stream = stream, rd_buffer = replicate buffer_size 0, rd_byte_pos = 0,
      rd_bit_pos = 0, rd_buffer_size = 0, rd_eof = False\<rparr>"

text \<open>
  \<open>is_eof\<close>, with the reader as left by the probe.  The \<open>except\<close> branch is for a
  stream whose \<open>seek\<close> or \<open>read\<close> raises, which those of a \<open>BytesIO\<close> do not.
\<close>

definition BitStreamReader_is_eof :: "bit_stream_reader \<Rightarrow> bool \<times> bit_stream_reader" where
  "BitStreamReader_is_eof r =
     (if \<not> rd_eof r then (False, r)
      else if rd_byte_pos r \<ge> rd_buffer_size r then (True, r)
      else if rd_byte_pos r = rd_buffer_size r - 1 \<and> rd_bit_pos r = 8 then (True, r)
      else
        (case source_read (source_seek_cur (rd_stream r) 0) 1 of
           (probe, stream1) \<Rightarrow>
             if probe = [] then
               (rd_byte_pos r \<ge> rd_buffer_size r, r\<lparr>rd_stream := stream1, rd_eof := True\<rparr>)
             else (False, r\<lparr>rd_stream := source_seek_cur stream1 (- 1)\<rparr>)))"

definition fill_buffer :: "bit_stream_reader \<Rightarrow> bit_stream_reader" where
  "fill_buffer r =
     (case source_read (rd_stream r) (length (rd_buffer r)) of
        (bytes_read, stream1) \<Rightarrow>
          if bytes_read = [] then
            r\<lparr>rd_stream := stream1, rd_byte_pos := 0, rd_bit_pos := 0,
              rd_buffer_size := 0, rd_eof := True\<rparr>
          else
            r\<lparr>rd_stream := stream1, rd_byte_pos := 0, rd_bit_pos := 0,
              rd_buffer_size := int (length bytes_read),
              rd_buffer := bytes_read @ drop (length bytes_read) (rd_buffer r)\<rparr>)"

text \<open>
  The head of the loop body of \<open>BitStreamReader.read_bits\<close>, "check if we need to load
  more data": \<open>Inl\<close> is the way out of the loop (the raise, or the \<open>break\<close> with the
  result so far), \<open>Inr\<close> the reader with which the body goes on.
\<close>

definition load_more_data ::
  "bit_stream_reader \<Rightarrow> int \<Rightarrow> int \<Rightarrow>
     ((error + int) \<times> bit_stream_reader) + bit_stream_reader" where
  "load_more_data r result bits_read =
     (if rd_byte_pos r \<ge> rd_buffer_size r then
        (if rd_eof r then
           Inl (if bits_read = 0 then (Inl EndOfStreamError, r) else (Inr result, r))
         else
           (let r1 = fill_buffer r
            in if rd_buffer_size r1 = 0 then
                 (let r2 = r1\<lparr>rd_eof := True\<rparr>
                  in Inl (if bits_read = 0 then (Inl EndOfStreamError, r2) else (Inr result, r2)))
               else Inr r1))
      else Inr r)"

function BitStreamReader_read_loop ::
  "int \<Rightarrow> bit_stream_reader \<Rightarrow> int \<Rightarrow> int \<Rightarrow> (error + int) \<times> bit_stream_reader" where
  "BitStreamReader_read_loop bit_count r result bits_read =
     (if bits_read < bit_count then
        (case load_more_data r result bits_read of
           Inl out \<Rightarrow> out
         | Inr r1 \<Rightarrow>
            (case bytearray_get (rd_buffer r1) (rd_byte_pos r1) of
               Inl e \<Rightarrow> (Inl e, r1)
             | Inr current_byte \<Rightarrow>
                (let bits_left_in_byte = 8 - rd_bit_pos r1;
                     bits_to_read = min (bit_count - bits_read) bits_left_in_byte
                 in if bits_to_read < 0 \<or> rd_bit_pos r1 < 0 then (Inl ValueError, r1)
                    else
                     (let mask = push_bit (nat bits_to_read) 1 - 1;
                          shift = rd_bit_pos r1;
                          extracted_bits = drop_bit (nat shift) current_byte AND mask;
                          result' = result OR push_bit (nat bits_read) extracted_bits;
                          bits_read' = bits_read + bits_to_read;
                          bit_pos' = rd_bit_pos r1 + bits_to_read;
                          r' = (if bit_pos' = 8
                                then r1\<lparr>rd_byte_pos := rd_byte_pos r1 + 1, rd_bit_pos := 0\<rparr>
                                else r1\<lparr>rd_bit_pos := bit_pos'\<rparr>)
                      in BitStreamReader_read_loop bit_count r' result' bits_read'))))
      else (Inr result, r))"
  by pat_completeness auto
termination
  by (relation "measure (\<lambda>(bit_count, r, result, bits_read).
        nat (2 * (bit_count - bits_read)) + (if rd_bit_pos r = 8 then 1 else 0))")
     (auto simp: min_def load_more_data_def fill_buffer_def Let_def
           split: if_splits prod.splits)

declare BitStreamReader_read_loop.simps [simp del]

definition BitStreamReader_read_bits ::
  "bit_stream_reader \<Rightarrow> int \<Rightarrow> (error + int) \<times> bit_stream_reader" where
  "BitStreamReader_read_bits r bit_count =
     (if bit_count \<le> 0 \<or> bit_count > 64 then (Inl InvalidBitCountError, r)
      else BitStreamReader_read_loop bit_count r 0 0)"

definition BitStreamReader_read_bits_u128 ::
  "bit_stream_reader \<Rightarrow> int \<Rightarrow> (error + int) \<times> bit_stream_reader" where
  "BitStreamReader_read_bits_u128 r bit_count =
     (if bit_count \<le> 0 \<or> bit_count > 128 then (Inl InvalidBitCountError, r)
      else if bit_count \<le> 64 then BitStreamReader_read_bits r bit_count
      else
        (case BitStreamReader_read_bits r 64 of
           (Inl e, r1) \<Rightarrow> (Inl e, r1)
         | (Inr low_value, r1) \<Rightarrow>
            (let high_bits = bit_count - 64
             in case BitStreamReader_read_bits r1 high_bits of
                  (Inl e, r2) \<Rightarrow> (Inl e, r2)
                | (Inr high_value, r2) \<Rightarrow> (Inr (push_bit 64 high_value OR low_value), r2))))"

section \<open>BitStreamWriter (bit\_stream\_writer.py)\<close>

record bit_stream_writer =
  wr_stream :: "int list"
  wr_buffer :: "int list"
  wr_byte_pos :: int
  wr_bit_pos :: int
  wr_buffer_size :: int

definition BitStreamWriter_init :: "int list \<Rightarrow> nat \<Rightarrow> bit_stream_writer" where
  "BitStreamWriter_init stream buffer_size =
     \<lparr>wr_stream = stream, wr_buffer = replicate buffer_size 0, wr_byte_pos = 0,
      wr_bit_pos = 0, wr_buffer_size = int buffer_size\<rparr>"

definition flush_buffer :: "bit_stream_writer \<Rightarrow> (error + unit) \<times> bit_stream_writer" where
  "flush_buffer w =
     (if wr_byte_pos w > 0 then
        (let w1 = w\<lparr>wr_stream := wr_stream w @ take (nat (wr_byte_pos w)) (wr_buffer w),
                    wr_byte_pos := 0\<rparr>
         in case bytearray_set (wr_buffer w1) 0 0 of
              Inl e \<Rightarrow> (Inl e, w1)
            | Inr buf \<Rightarrow> (Inr (), w1\<lparr>wr_buffer := buf\<rparr>))
      else (Inr (), w))"

definition BitStreamWriter_flush ::
  "bit_stream_writer \<Rightarrow> (error + unit) \<times> bit_stream_writer" where
  "BitStreamWriter_flush w =
     flush_buffer (if wr_bit_pos w > 0
                   then w\<lparr>wr_byte_pos := wr_byte_pos w + 1, wr_bit_pos := 0\<rparr> else w)"

function BitStreamWriter_write_loop ::
  "int \<Rightarrow> int \<Rightarrow> bit_stream_writer \<Rightarrow> int \<Rightarrow> (error + unit) \<times> bit_stream_writer" where
  "BitStreamWriter_write_loop v bit_count w bits_written =
     (if bits_written < bit_count then
        (let bits_left_in_byte = 8 - wr_bit_pos w;
             bits_to_write = min (bit_count - bits_written) bits_left_in_byte
         in if bits_to_write < 0 then (Inl ValueError, w)
            else
             (let shift = bits_written;
                  mask = push_bit (nat shift) (push_bit (nat bits_to_write) 1 - 1);
                  extracted_bits = drop_bit (nat shift) (v AND mask);
                  byte_shift = bits_left_in_byte - bits_to_write;
                  byte_mask =
                    NOT (push_bit (nat byte_shift) (push_bit (nat bits_to_write) 1 - 1)) AND 0xFF
              in case bytearray_iand (wr_buffer w) (wr_byte_pos w) byte_mask of
                   Inl e \<Rightarrow> (Inl e, w)
                 | Inr buf1 \<Rightarrow>
                    (case bytearray_ior buf1 (wr_byte_pos w)
                            (push_bit (nat byte_shift) extracted_bits) of
                       Inl e \<Rightarrow> (Inl e, w\<lparr>wr_buffer := buf1\<rparr>)
                     | Inr buf2 \<Rightarrow>
                        (let bits_written' = bits_written + bits_to_write;
                             bit_pos' = wr_bit_pos w + bits_to_write
                         in if bit_pos' = 8 then
                              (let w1 = w\<lparr>wr_buffer := buf2,
                                          wr_byte_pos := wr_byte_pos w + 1, wr_bit_pos := 0\<rparr>
                               in if wr_byte_pos w1 \<ge> wr_buffer_size w1 then
                                    (case flush_buffer w1 of
                                       (Inl e, w2) \<Rightarrow> (Inl e, w2)
                                     | (Inr u, w2) \<Rightarrow>
                                        BitStreamWriter_write_loop v bit_count w2 bits_written')
                                  else BitStreamWriter_write_loop v bit_count w1 bits_written')
                            else BitStreamWriter_write_loop v bit_count
                                   (w\<lparr>wr_buffer := buf2, wr_bit_pos := bit_pos'\<rparr>)
                                   bits_written'))))
      else (Inr (), w))"
  by pat_completeness auto
termination
  by (relation "measure (\<lambda>(v, bit_count, w, bits_written).
        nat (2 * (bit_count - bits_written)) + (if wr_bit_pos w = 8 then 1 else 0))")
     (auto simp: min_def flush_buffer_def Let_def split: if_splits sum.splits)

declare BitStreamWriter_write_loop.simps [simp del]

definition BitStreamWriter_write_bits ::
  "bit_stream_writer \<Rightarrow> int \<Rightarrow> int \<Rightarrow> (error + unit) \<times> bit_stream_writer" where
  "BitStreamWriter_write_bits w v bit_count =
     (if bit_count \<le> 0 \<or> bit_count > 64 then (Inl InvalidBitCountError, w)
      else
        (case (if wr_byte_pos w \<ge> wr_buffer_size w then flush_buffer w else (Inr (), w)) of
           (Inl e, w1) \<Rightarrow> (Inl e, w1)
         | (Inr u, w1) \<Rightarrow> BitStreamWriter_write_loop v bit_count w1 0))"

definition BitStreamWriter_write_bits_u128 ::
  "bit_stream_writer \<Rightarrow> int \<Rightarrow> int \<Rightarrow> (error + unit) \<times> bit_stream_writer" where
  "BitStreamWriter_write_bits_u128 w v bit_count =
     (if bit_count \<le> 0 \<or> bit_count > 128 then (Inl InvalidBitCountError, w)
      else if bit_count \<le> 64 then BitStreamWriter_write_bits w v bit_count
      else
        (let low_value = v AND (push_bit 64 1 - 1);
             high_bits = bit_count - 64;
             high_value = drop_bit 64 v
         in case BitStreamWriter_write_bits w low_value 64 of
              (Inl e, w1) \<Rightarrow> (Inl e, w1)
            | (Inr u, w1) \<Rightarrow> BitStreamWriter_write_bits w1 high_value high_bits))"

section \<open>Running a writer and a reader over the same bytes\<close>

text \<open>
  The (value, width) pairs written one after the other with \<open>write_bits_u128\<close> (which
  is \<open>write_bits\<close> for a width up to 64), stopping at the first raise.
\<close>

fun BitStreamWriter_write_sequence ::
  "bit_stream_writer \<Rightarrow> (int \<times> int) list \<Rightarrow> (error + unit) \<times> bit_stream_writer" where
  "BitStreamWriter_write_sequence w [] = (Inr (), w)"
| "BitStreamWriter_write_sequence w ((v, n) # rest) =
     (case BitStreamWriter_write_bits_u128 w v n of
        (Inl e, w1) \<Rightarrow> (Inl e, w1)
      | (Inr u, w1) \<Rightarrow> BitStreamWriter_write_sequence w1 rest)"

text \<open>The bytes that reach the sink: the writes, then \<open>flush()\<close>.\<close>

definition written_bytes :: "nat \<Rightarrow> (int \<times> int) list \<Rightarrow> int list" where
  "written_bytes buffer_size pairs =
     wr_stream (snd (BitStreamWriter_flush
       (snd (BitStreamWriter_write_sequence (BitStreamWriter_init [] buffer_size) pairs))))"

fun BitStreamReader_read_sequence ::
  "bit_stream_reader \<Rightarrow> int list \<Rightarrow> (error + int) list" where
  "BitStreamReader_read_sequence r [] = []"
| "BitStreamReader_read_sequence r (n # ns) =
     (case BitStreamReader_read_bits_u128 r n of
        (x, r1) \<Rightarrow> x # BitStreamReader_read_sequence r1 ns)"

text \<open>Write the pairs and flush, then read the same widths back from the bytes produced.\<close>

definition write_then_read :: "nat \<Rightarrow> (int \<times> int) list \<Rightarrow> (error + int) list" where
  "write_then_read buffer_size pairs =
     BitStreamReader_read_sequence
       (BitStreamReader_init \<lparr>src_data = written_bytes buffer_size pairs, src_pos = 0\<rparr>
          buffer_size)
       (map snd pairs)"

section \<open>Notions used to state the properties\<close>

text \<open>
  The buffer of a BitStream seen as one string of bits, most significant bit of each
  byte first: bit \<open>i\<close> of the stream is bit \<open>7 - i mod 8\<close> of byte \<open>i div 8\<close>.
\<close>

definition bit_at :: "int list \<Rightarrow> int \<Rightarrow> bool" where
  "bit_at buf i = bit (buf ! nat (i div 8)) (nat (7 - i mod 8))"

text \<open>The cursor update at the end of the body of both BitStream loops.\<close>

definition advance :: "bit_stream \<Rightarrow> int \<Rightarrow> bit_stream" where
  "advance s k = (if bs_bit_pos s + k = 8
                  then s\<lparr>bs_byte_pos := bs_byte_pos s + 1, bs_bit_pos := 0\<rparr>
                  else s\<lparr>bs_bit_pos := bs_bit_pos s + k\<rparr>)"

text \<open>
  What every BitStream that the operations can produce satisfies: the invariant of the
  specification together with the range of the bit index and a non-negative length.
\<close>

definition bs_inv :: "bit_stream \<Rightarrow> bool" where
  "bs_inv s \<longleftrightarrow> 0 \<le> bs_bit_pos s \<and> bs_bit_pos s < 8 \<and> 0 \<le> bs_bit_length s
     \<and> bs_bit_length s \<le> 8 * int (length (bs_buffer s)) \<and> position s \<le> bs_bit_length s"

text \<open>
  The operations of a BitStream as data, so that "any sequence of successful
  operations" is a list; \<open>run_operations\<close> is \<open>None\<close> as soon as one of them raises.
\<close>

datatype operation =
    Read_bits int | Read_bits_u128 int | Write_bits int int | Write_bits_u128 int int
  | Set_position int | Reset | From_bytes "int list"

fun outcome :: "(error + 'a) \<times> bit_stream \<Rightarrow> error option \<times> bit_stream" where
  "outcome (Inl e, s) = (Some e, s)"
| "outcome (Inr x, s) = (None, s)"

fun apply_operation :: "operation \<Rightarrow> bit_stream \<Rightarrow> error option \<times> bit_stream" where
  "apply_operation (Read_bits n) s = outcome (BitStream_read_bits s n)"
| "apply_operation (Read_bits_u128 n) s = outcome (BitStream_read_bits_u128 s n)"
| "apply_operation (Write_bits v n) s = outcome (BitStream_write_bits s v n)"
| "apply_operation (Write_bits_u128 v n) s = outcome (BitStream_write_bits_u128 s v n)"
| "apply_operation (Set_position p) s = outcome (set_position s p)"
| "apply_operation Reset s = (None, reset s)"
| "apply_operation (From_bytes data) s = (None, from_bytes s data)"

fun run_operations :: "bit_stream \<Rightarrow> operation list \<Rightarrow> bit_stream option" where
  "run_operations s [] = Some s"
| "run_operations s (x # xs) =
     (case apply_operation x s of
        (None, s') \<Rightarrow> run_operations s' xs
      | (Some e, s') \<Rightarrow> None)"

text \<open>
  The bits a reader can still deliver: those left in its buffer plus those of the bytes
  the source has not handed out yet.
  \<open>rd_inv\<close> is what holds of every reader made by the constructor with a buffer of at
  least one byte and used through its read methods.
\<close>

definition available_bits :: "bit_stream_reader \<Rightarrow> int" where
  "available_bits r =
     (if rd_byte_pos r < rd_buffer_size r
      then 8 * (rd_buffer_size r - rd_byte_pos r) - rd_bit_pos r else 0)
     + 8 * int (length (src_data (rd_stream r)) - src_pos (rd_stream r))"

definition rd_inv :: "bit_stream_reader \<Rightarrow> bool" where
  "rd_inv r \<longleftrightarrow> 0 \<le> rd_bit_pos r \<and> rd_bit_pos r < 8 \<and> 0 \<le> rd_byte_pos r
     \<and> 0 \<le> rd_buffer_size r \<and> rd_buffer_size r \<le> int (length (rd_buffer r))
     \<and> rd_buffer r \<noteq> []
     \<and> (rd_bit_pos r > 0 \<longrightarrow> rd_byte_pos r < rd_buffer_size r)
     \<and> (rd_eof r \<longrightarrow>
          rd_buffer_size r = 0 \<and> length (src_data (rd_stream r)) \<le> src_pos (rd_stream r))"

text \<open>
  The bytes a reader has not finished with, in reading order: the rest of its buffer,
  then the rest of the source.  \<open>rd_bit r i\<close> is the \<open>i\<close>-th unread bit, counted from
  the bit cursor, least significant bit of each byte first.
\<close>

definition rd_pending :: "bit_stream_reader \<Rightarrow> int list" where
  "rd_pending r =
     drop (nat (rd_byte_pos r)) (take (nat (rd_buffer_size r)) (rd_buffer r))
     @ drop (src_pos (rd_stream r)) (src_data (rd_stream r))"

definition rd_bit :: "bit_stream_reader \<Rightarrow> int \<Rightarrow> bool" where
  "rd_bit r i =
     bit (rd_pending r ! nat ((rd_bit_pos r + i) div 8)) (nat ((rd_bit_pos r + i) mod 8))"

text \<open>The cursor update at the end of the body of the reader's loop.\<close>

definition rd_advance :: "bit_stream_reader \<Rightarrow> int \<Rightarrow> bit_stream_reader" where
  "rd_advance r k = (if rd_bit_pos r + k = 8
                     then r\<lparr>rd_byte_pos := rd_byte_pos r + 1, rd_bit_pos := 0\<rparr>
                     else r\<lparr>rd_bit_pos := rd_bit_pos r + k\<rparr>)"

text \<open>A reader after the reads of the given widths, whatever their outcomes.\<close>

fun BitStreamReader_after :: "bit_stream_reader \<Rightarrow> int list \<Rightarrow> bit_stream_reader" where
  "BitStreamReader_after r [] = r"
| "BitStreamReader_after r (n # ns) =
     BitStreamReader_after (snd (BitStreamReader_read_bits_u128 r n)) ns"


section \<open>Bit-level arithmetic\<close>

lemma ones_eq_mask: "2 ^ n - 1 = (mask n :: int)"
  by (simp add: mask_eq_exp_minus_1)

lemma extract_eq: "drop_bit sh (v AND push_bit sh (mask k)) = take_bit k (drop_bit sh (v::int))"
  by (rule bit_eqI) (auto simp add: bit_simps)

lemma chunk_join:
  "push_bit sh (take_bit k (drop_bit sh (v::int))) OR take_bit sh v = take_bit (sh + k) v"
  by (rule bit_eqI) (auto simp add: bit_simps)

lemma stored_byte_bit:
  "bit ((b AND (NOT (push_bit bsh (mask k)) AND 255)) OR push_bit bsh (take_bit k (e::int))) j
     = (if bsh \<le> j \<and> j < bsh + k then bit e (j - bsh) else (bit b j \<and> j < 8))"
proof -
  have m: "(255::int) = mask 8" by (simp add: mask_eq_exp_minus_1)
  show ?thesis unfolding m by (auto simp add: bit_simps)
qed

lemma stored_byte_range:
  "bsh + k \<le> 8 \<Longrightarrow> 0 \<le> (b AND (NOT (push_bit bsh (mask k)) AND 255)) OR push_bit bsh (take_bit k (e::int))
     \<and> (b AND (NOT (push_bit bsh (mask k)) AND 255)) OR push_bit bsh (take_bit k (e::int)) \<le> 255"
proof -
  assume h: "bsh + k \<le> 8"
  let ?x = "b AND (NOT (push_bit bsh (mask k)) AND 255)"
  let ?y = "push_bit bsh (take_bit k e)"
  have x0: "0 \<le> ?x" by simp
  have x1: "?x < 2 ^ 8" 
    by (rule le_less_trans[OF AND_upper2]) (simp_all)
  have y0: "0 \<le> ?y" by simp
  have "take_bit k e < 2 ^ k" by simp
  then have "?y < 2 ^ (bsh + k)" 
    by (simp add: push_bit_eq_mult power_add)
  also have "\<dots> \<le> 2 ^ 8" using h by (intro power_increasing) simp_all
  finally have y1: "?y < 2 ^ 8" .
  have "?x OR ?y < 2 ^ 8" using x0 x1 y1 by (rule OR_upper)
  moreover have "0 \<le> ?x OR ?y" using x0 y0 by simp
  ultimately show ?thesis by simp
qed

subsection \<open>One iteration of the BitStream loops\<close>

lemma BitStream_read_loop_step:
  assumes "bits_read < bit_count" "0 \<le> bs_bit_pos s" "bs_bit_pos s < 8"
    "0 \<le> bs_byte_pos s" "bs_byte_pos s < int (length (bs_buffer s))"
  shows "BitStream_read_loop bit_count s result bits_read =
         (let k = min (bit_count - bits_read) (8 - bs_bit_pos s) in
          BitStream_read_loop bit_count (advance s k)
           (result OR push_bit (nat (bit_count - bits_read - k))
              (take_bit (nat k) (drop_bit (nat (8 - bs_bit_pos s - k)) (bs_buffer s ! nat (bs_byte_pos s)))))
           (bits_read + k))"
  using assms
  apply (subst BitStream_read_loop.simps)
  apply (simp add: Let_def bytearray_get_def bytearray_index_def advance_def ones_eq_mask take_bit_eq_mask min_def)
  done

lemma bytearray_index_in: "0 \<le> i \<Longrightarrow> i < int (length buf) \<Longrightarrow> bytearray_index buf i = Some (nat i)"
  by (simp add: bytearray_index_def)

lemma BitStream_write_loop_step:
  assumes "bits_written < bit_count" "0 \<le> bs_bit_pos s" "bs_bit_pos s < 8"
    "0 \<le> bs_byte_pos s" "bs_byte_pos s < int (length (bs_buffer s))"
  shows "BitStream_write_loop v bit_count s bits_written =
         (let k = min (bit_count - bits_written) (8 - bs_bit_pos s);
              bsh = nat (8 - bs_bit_pos s - k);
              b = bs_buffer s ! nat (bs_byte_pos s);
              b' = (b AND (NOT (push_bit bsh (mask (nat k))) AND 255)) OR
                     push_bit bsh (take_bit (nat k) (drop_bit (nat (bit_count - bits_written - k)) v))
          in BitStream_write_loop v bit_count
               (advance (s\<lparr>bs_buffer := (bs_buffer s)[nat (bs_byte_pos s) := b']\<rparr>) k)
               (bits_written + k))"
proof -
  define k where "k = min (bit_count - bits_written) (8 - bs_bit_pos s)"
  define bsh where "bsh = nat (8 - bs_bit_pos s - k)"
  define b where "b = bs_buffer s ! nat (bs_byte_pos s)"
  define bm where "bm = NOT (push_bit bsh (mask (nat k))) AND (255::int)"
  define x where "x = push_bit bsh (take_bit (nat k) (drop_bit (nat (bit_count - bits_written - k)) v))"
  have k: "0 < k" "k \<le> 8 - bs_bit_pos s" "k \<le> bit_count - bits_written"
    using assms by (auto simp: k_def)
  have idx: "bytearray_index (bs_buffer s) (bs_byte_pos s) = Some (nat (bs_byte_pos s))"
    using assms by (simp add: bytearray_index_in)
  have bk: "bsh + nat k \<le> 8" using k assms unfolding bsh_def by linarith
  have r1: "0 \<le> b AND bm" "b AND bm \<le> 255"
    using stored_byte_range[OF bk, of b 0] by (simp_all add: bm_def)
  have s1: "bytearray_iand (bs_buffer s) (bs_byte_pos s) bm
             = Inr ((bs_buffer s)[nat (bs_byte_pos s) := b AND bm])"
    using r1 by (auto simp add: bytearray_iand_def bytearray_get_def bytearray_set_def idx b_def)
  have idx2: "bytearray_index ((bs_buffer s)[nat (bs_byte_pos s) := b AND bm]) (bs_byte_pos s)
      = Some (nat (bs_byte_pos s))"
    using assms by (simp add: bytearray_index_in)
  have r2: "0 \<le> (b AND bm) OR x" "(b AND bm) OR x \<le> 255"
    unfolding bm_def x_def
    using stored_byte_range[OF bk, of b "drop_bit (nat (bit_count - bits_written - k)) v"]
    by blast+
  have s2: "bytearray_ior ((bs_buffer s)[nat (bs_byte_pos s) := b AND bm]) (bs_byte_pos s) x
             = Inr ((bs_buffer s)[nat (bs_byte_pos s) := (b AND bm) OR x])"
    using r2 assms by (auto simp add: bytearray_ior_def bytearray_get_def bytearray_set_def idx2)
  have m: "push_bit (nat k) 1 - 1 = (mask (nat k) :: int)"
    by (simp add: mask_eq_exp_minus_1)
  have e: "drop_bit (nat (bit_count - bits_written - k)) (v AND push_bit (nat (bit_count - bits_written - k)) (mask (nat k))) 
     = take_bit (nat k) (drop_bit (nat (bit_count - bits_written - k)) v)"
    by (rule extract_eq)
  have nk: "\<not> k < 0" using k by simp
  show ?thesis
    apply (subst BitStream_write_loop.simps)
    apply (simp only: Let_def assms if_True flip: k_def)
    apply (simp only: nk if_False m e flip: bsh_def bm_def)
    apply (simp only: flip: x_def)
    apply (simp only: s1 sum.case s2 advance_def flip: b_def)
    apply (simp)
    done
qed


subsection \<open>A chunk as bits of the stream\<close>

lemma bit_at_in_byte:
  assumes "0 \<le> r" "r < 8" "0 \<le> q"
  shows "bit_at buf (q * 8 + r) = bit (buf ! nat q) (nat (7 - r))"
  using assms by (simp add: bit_at_def)

lemma split_index:
  fixes i :: int
  obtains q r where "i = q * 8 + r" "0 \<le> r" "r < 8" "q = i div 8"
  by (metis mod_mult_div_eq add.commute mult.commute  pos_mod_sign pos_mod_bound zero_less_numeral)

lemma read_chunk_bits:
  assumes "0 \<le> bi" "0 < k" "bi + k \<le> 8" "0 \<le> q"
  shows "bit (take_bit (nat k) (drop_bit (nat (8 - bi - k)) (buf ! nat q))) j
           \<longleftrightarrow> int j < k \<and> bit_at buf (q * 8 + bi + k - 1 - int j)"
proof (cases "int j < k")
  case True
  have "bit_at buf (q * 8 + (bi + k - 1 - int j)) = bit (buf ! nat q) (nat (7 - (bi + k - 1 - int j)))"
    using assms True by (intro bit_at_in_byte) auto
  moreover have "nat (7 - (bi + k - 1 - int j)) = nat (8 - bi - k) + j"
    using assms True by linarith
  moreover have "q * 8 + (bi + k - 1 - int j) = q * 8 + bi + k - 1 - int j" by simp
  moreover have "j < nat k" using True by linarith
  ultimately show ?thesis using True by (simp add: bit_simps)
next
  case False
  then have "\<not> j < nat k" by linarith
  then show ?thesis using False by (simp add: bit_simps)
qed

lemma write_chunk_bits:
  assumes "0 \<le> bi" "0 < k" "bi + k \<le> 8" "0 \<le> q" "q < int (length buf)" "0 \<le> i"
  shows "bit_at (buf[nat q := (buf ! nat q AND (NOT (push_bit (nat (8 - bi - k)) (mask (nat k))) AND 255))
                       OR push_bit (nat (8 - bi - k)) (take_bit (nat k) e)]) i
         = (if q * 8 + bi \<le> i \<and> i < q * 8 + bi + k then bit e (nat (q * 8 + bi + k - 1 - i))
            else bit_at buf i)"
proof -
  obtain q' r where i: "i = q' * 8 + r" "0 \<le> r" "r < 8" "q' = i div 8" by (rule split_index)
  have q'0: "0 \<le> q'" using i assms by simp
  show ?thesis
  proof (cases "q' = q")
    case True
    have "bit_at (buf[nat q := (buf ! nat q AND (NOT (push_bit (nat (8 - bi - k)) (mask (nat k))) AND 255))
                       OR push_bit (nat (8 - bi - k)) (take_bit (nat k) e)]) i 
       = bit ((buf ! nat q AND (NOT (push_bit (nat (8 - bi - k)) (mask (nat k))) AND 255))
                       OR push_bit (nat (8 - bi - k)) (take_bit (nat k) e)) (nat (7 - r))"
      unfolding i(1) using i(2,3) assms True by (simp add: bit_at_in_byte)
    also have "\<dots> = (if nat (8 - bi - k) \<le> nat (7 - r) \<and> nat (7 - r) < nat (8 - bi - k) + nat k 
           then bit e (nat (7 - r) - nat (8 - bi - k)) else (bit (buf ! nat q) (nat (7 - r)) \<and> nat (7 - r) < 8))"
      by (rule stored_byte_bit)
    also have "\<dots> = (if q * 8 + bi \<le> i \<and> i < q * 8 + bi + k then bit e (nat (q * 8 + bi + k - 1 - i))
            else bit_at buf i)"
    proof -
      have ir: "q * 8 + bi \<le> i \<longleftrightarrow> bi \<le> r" "i < q * 8 + bi + k \<longleftrightarrow> r < bi + k"
        "q * 8 + bi + k - 1 - i = bi + k - 1 - r"
        using i(1) True by simp_all
      have c: "(nat (8 - bi - k) \<le> nat (7 - r) \<and> nat (7 - r) < nat (8 - bi - k) + nat k) 
            \<longleftrightarrow> (q * 8 + bi \<le> i \<and> i < q * 8 + bi + k)"
        unfolding ir using i(2,3) assms(1,2,3) by auto
      have d: "q * 8 + bi \<le> i \<and> i < q * 8 + bi + k \<Longrightarrow> nat (7 - r) - nat (8 - bi - k) = nat (q * 8 + bi + k - 1 - i)"
        unfolding ir using i(2,3) assms(1,2,3) by auto
      have e: "bit_at buf i = bit (buf ! nat q) (nat (7 - r))"
        unfolding i(1) using i(2,3) assms True by (simp add: bit_at_in_byte)
      have f: "nat (7 - r) < 8" using i by auto
      show ?thesis using c d e f by auto
    qed
    finally show ?thesis .
  next
    case False
    have "nat (i div 8) \<noteq> nat q" using False q'0 assms i(4) by auto
    then have "bit_at (buf[nat q := (buf ! nat q AND (NOT (push_bit (nat (8 - bi - k)) (mask (nat k))) AND 255))
                       OR push_bit (nat (8 - bi - k)) (take_bit (nat k) e)]) i = bit_at buf i"
      by (simp add: bit_at_def)
    moreover have "\<not> (q * 8 + bi \<le> i \<and> i < q * 8 + bi + k)"
    proof (cases "q' < q")
      case True
      then show ?thesis using i(1,2,3) assms(1,2,3) by linarith
    next
      case False
      then have "q < q'" using \<open>q' \<noteq> q\<close> by simp
      then show ?thesis using i(1,2,3) assms(1,2,3) by linarith
    qed
    ultimately show ?thesis by auto
  qed
qed


subsection \<open>The loops on the bit string\<close>

lemma position_div_mod:
  assumes "0 \<le> bs_bit_pos s" "bs_bit_pos s < 8"
  shows "position s div 8 = bs_byte_pos s" "position s mod 8 = bs_bit_pos s"
  using assms by (simp_all add: position_def)

lemma advance_facts:
  assumes "0 \<le> bs_bit_pos s" "0 < k" "bs_bit_pos s + k \<le> 8"
  shows "position (advance s k) = position s + k"
    "0 \<le> bs_bit_pos (advance s k)" "bs_bit_pos (advance s k) < 8"
    "bs_byte_pos s \<le> bs_byte_pos (advance s k)"
    "bs_buffer (advance s k) = bs_buffer s"
    "bs_bit_length (advance s k) = bs_bit_length s"
    "(advance s k)\<lparr>bs_byte_pos := a, bs_bit_pos := b\<rparr> = s\<lparr>bs_byte_pos := a, bs_bit_pos := b\<rparr>"
  using assms by (auto simp add: advance_def position_def)

lemma cursor_at_self:
  assumes "0 \<le> bs_bit_pos s" "bs_bit_pos s < 8"
  shows "s\<lparr>bs_byte_pos := position s div 8, bs_bit_pos := position s mod 8\<rparr> = s"
  using assms by (simp add: position_div_mod)

lemma BitStream_read_loop_bits:
  assumes "0 \<le> bs_bit_pos s" "bs_bit_pos s < 8" "0 \<le> bs_byte_pos s"
    "bits_read \<le> bit_count"
    "position s + (bit_count - bits_read) \<le> 8 * int (length (bs_buffer s))"
  shows "\<exists>X. BitStream_read_loop bit_count s result bits_read =
            (Inr (result OR X),
             s\<lparr>bs_byte_pos := (position s + (bit_count - bits_read)) div 8,
               bs_bit_pos := (position s + (bit_count - bits_read)) mod 8\<rparr>)
          \<and> (\<forall>j. bit X j \<longleftrightarrow> int j < bit_count - bits_read \<and>
                 bit_at (bs_buffer s) (position s + (bit_count - bits_read) - 1 - int j))"
  using assms
proof (induction "nat (bit_count - bits_read)" arbitrary: s result bits_read rule: less_induct)
  case less
  show ?case
  proof (cases "bits_read < bit_count")
    case False
    then have eq: "bits_read = bit_count" using less.prems by simp
    have "BitStream_read_loop bit_count s result bits_read = (Inr result, s)"
      using False by (subst BitStream_read_loop.simps) simp
    then show ?thesis
      using cursor_at_self[OF less.prems(1,2)] by (intro exI[of _ 0]) (simp add: eq)
  next
    case True
    define m where "m = bit_count - bits_read"
    define k where "k = min (bit_count - bits_read) (8 - bs_bit_pos s)"
    have k: "0 < k" "bs_bit_pos s + k \<le> 8" "k \<le> m"
      using True less.prems by (auto simp: k_def m_def)
    define e where "e = take_bit (nat k)
       (drop_bit (nat (8 - bs_bit_pos s - k)) (bs_buffer s ! nat (bs_byte_pos s)))"
    define s1 where "s1 = advance s k"
    have bp: "bs_byte_pos s < int (length (bs_buffer s))"
      using less.prems True by (simp add: position_def)
    have step: "BitStream_read_loop bit_count s result bits_read =
        BitStream_read_loop bit_count s1
          (result OR push_bit (nat (m - k)) e) (bits_read + k)"
      using BitStream_read_loop_step[OF True less.prems(1,2,3) bp, of result]
      by (simp add: Let_def k_def e_def s1_def m_def)
    note adv = advance_facts[OF less.prems(1) k(1,2), folded s1_def]
    have "\<exists>X. BitStream_read_loop bit_count s1 (result OR push_bit (nat (m - k)) e) (bits_read + k) =
            (Inr ((result OR push_bit (nat (m - k)) e) OR X),
             s1\<lparr>bs_byte_pos := (position s1 + (bit_count - (bits_read + k))) div 8,
               bs_bit_pos := (position s1 + (bit_count - (bits_read + k))) mod 8\<rparr>)
          \<and> (\<forall>j. bit X j \<longleftrightarrow> int j < bit_count - (bits_read + k) \<and>
                 bit_at (bs_buffer s1) (position s1 + (bit_count - (bits_read + k)) - 1 - int j))"
    proof (rule less.hyps)
      show "nat (bit_count - (bits_read + k)) < nat (bit_count - bits_read)"
        using k True by linarith
      show "0 \<le> bs_bit_pos s1" "bs_bit_pos s1 < 8" by (rule adv)+
      show "0 \<le> bs_byte_pos s1" using adv(4) less.prems(3) by linarith
      show "bits_read + k \<le> bit_count" using k by (simp add: m_def)
      show "position s1 + (bit_count - (bits_read + k)) \<le> 8 * int (length (bs_buffer s1))"
        using less.prems(5) by (simp add: adv)
    qed
    then obtain X1 where X1:
      "BitStream_read_loop bit_count s1 (result OR push_bit (nat (m - k)) e) (bits_read + k) =
            (Inr ((result OR push_bit (nat (m - k)) e) OR X1),
             s\<lparr>bs_byte_pos := (position s + m) div 8, bs_bit_pos := (position s + m) mod 8\<rparr>)"
      "\<And>j. bit X1 j \<longleftrightarrow> int j < m - k \<and> bit_at (bs_buffer s) (position s + m - 1 - int j)"
      by (auto simp add: adv m_def algebra_simps)
    have ebit: "\<And>j. bit e j \<longleftrightarrow> int j < k \<and>
        bit_at (bs_buffer s) (position s + k - 1 - int j)"
      unfolding e_def position_def
      by (rule read_chunk_bits[OF less.prems(1) k(1,2) less.prems(3)])
    have "\<forall>j. bit (push_bit (nat (m - k)) e OR X1) j \<longleftrightarrow>
             int j < m \<and> bit_at (bs_buffer s) (position s + m - 1 - int j)"
    proof
      fix j
      show "bit (push_bit (nat (m - k)) e OR X1) j \<longleftrightarrow>
             int j < m \<and> bit_at (bs_buffer s) (position s + m - 1 - int j)"
      proof (cases "int j < m - k")
        case True
        then have "\<not> nat (m - k) \<le> j" by linarith
        then show ?thesis using True k by (simp add: bit_simps X1(2))
      next
        case False
        then have le: "nat (m - k) \<le> j" by linarith
        have ij: "int (j - nat (m - k)) = int j - (m - k)" using le k by linarith
        have a: "position s + k - 1 - (int j - (m - k)) = position s + m - 1 - int j" by simp
        have b: "int j - (m - k) < k \<longleftrightarrow> int j < m" by linarith
        have "bit e (j - nat (m - k)) \<longleftrightarrow>
                int j < m \<and> bit_at (bs_buffer s) (position s + m - 1 - int j)"
          unfolding ebit ij a b ..
        moreover have "\<not> bit X1 j" using False by (simp add: X1(2))
        ultimately show ?thesis using le by (simp add: bit_simps)
      qed
    qed
    then show ?thesis
      unfolding step X1(1) m_def[symmetric]
      by (intro exI[of _ "push_bit (nat (m - k)) e OR X1"]) (simp add: or.assoc)
  qed
qed


lemma advance_buffer_update:
  "(advance (s\<lparr>bs_buffer := B\<rparr>) k)\<lparr>bs_buffer := B', bs_byte_pos := a, bs_bit_pos := b\<rparr>
     = s\<lparr>bs_buffer := B', bs_byte_pos := a, bs_bit_pos := b\<rparr>"
  by (simp add: advance_def)

lemma BitStream_write_loop_bits:
  assumes "0 \<le> bs_bit_pos s" "bs_bit_pos s < 8" "0 \<le> bs_byte_pos s"
    "bits_written \<le> bit_count"
    "position s + (bit_count - bits_written) \<le> 8 * int (length (bs_buffer s))"
  shows "\<exists>buf'. BitStream_write_loop v bit_count s bits_written =
            (Inr (),
             s\<lparr>bs_buffer := buf',
               bs_byte_pos := (position s + (bit_count - bits_written)) div 8,
               bs_bit_pos := (position s + (bit_count - bits_written)) mod 8\<rparr>)
          \<and> length buf' = length (bs_buffer s)
          \<and> (\<forall>i. 0 \<le> i \<longrightarrow> bit_at buf' i =
                 (if position s \<le> i \<and> i < position s + (bit_count - bits_written)
                  then bit v (nat (position s + (bit_count - bits_written) - 1 - i))
                  else bit_at (bs_buffer s) i))"
  using assms
proof (induction "nat (bit_count - bits_written)" arbitrary: s bits_written rule: less_induct)
  case less
  show ?case
  proof (cases "bits_written < bit_count")
    case False
    then have eq: "bits_written = bit_count" using less.prems by simp
    have "BitStream_write_loop v bit_count s bits_written = (Inr (), s)"
      using False by (subst BitStream_write_loop.simps) simp
    then show ?thesis
      using cursor_at_self[OF less.prems(1,2)]
      by (intro exI[of _ "bs_buffer s"]) (auto simp add: eq)
  next
    case True
    define m where "m = bit_count - bits_written"
    define k where "k = min (bit_count - bits_written) (8 - bs_bit_pos s)"
    have k: "0 < k" "bs_bit_pos s + k \<le> 8" "k \<le> m"
      using True less.prems by (auto simp: k_def m_def)
    define e where "e = drop_bit (nat (m - k)) v"
    define B where "B = (bs_buffer s)[nat (bs_byte_pos s) :=
        (bs_buffer s ! nat (bs_byte_pos s) AND
           (NOT (push_bit (nat (8 - bs_bit_pos s - k)) (mask (nat k))) AND 255))
        OR push_bit (nat (8 - bs_bit_pos s - k)) (take_bit (nat k) e)]"
    define s1 where "s1 = advance (s\<lparr>bs_buffer := B\<rparr>) k"
    have bp: "bs_byte_pos s < int (length (bs_buffer s))"
      using less.prems True by (simp add: position_def)
    have step: "BitStream_write_loop v bit_count s bits_written =
        BitStream_write_loop v bit_count s1 (bits_written + k)"
      using BitStream_write_loop_step[OF True less.prems(1,2,3) bp, of v]
      by (simp add: Let_def k_def e_def s1_def m_def B_def)
    have pre: "0 \<le> bs_bit_pos (s\<lparr>bs_buffer := B\<rparr>)" using less.prems by simp
    have bk: "bs_bit_pos (s\<lparr>bs_buffer := B\<rparr>) + k \<le> 8" using k by simp
    note adv = advance_facts[OF pre k(1) bk, folded s1_def]
    have pos0: "position (s\<lparr>bs_buffer := B\<rparr>) = position s" by (simp add: position_def)
    have len: "length B = length (bs_buffer s)" by (simp add: B_def)
    have Bbit: "\<And>i. 0 \<le> i \<Longrightarrow> bit_at B i =
        (if position s \<le> i \<and> i < position s + k then bit e (nat (position s + k - 1 - i))
         else bit_at (bs_buffer s) i)"
      unfolding B_def position_def
      by (rule write_chunk_bits[OF less.prems(1) k(1,2) less.prems(3) bp])
    have "\<exists>buf'. BitStream_write_loop v bit_count s1 (bits_written + k) =
            (Inr (),
             s1\<lparr>bs_buffer := buf',
               bs_byte_pos := (position s1 + (bit_count - (bits_written + k))) div 8,
               bs_bit_pos := (position s1 + (bit_count - (bits_written + k))) mod 8\<rparr>)
          \<and> length buf' = length (bs_buffer s1)
          \<and> (\<forall>i. 0 \<le> i \<longrightarrow> bit_at buf' i =
                 (if position s1 \<le> i \<and> i < position s1 + (bit_count - (bits_written + k))
                  then bit v (nat (position s1 + (bit_count - (bits_written + k)) - 1 - i))
                  else bit_at (bs_buffer s1) i))"
    proof (rule less.hyps)
      show "nat (bit_count - (bits_written + k)) < nat (bit_count - bits_written)"
        using k True by linarith
      show "0 \<le> bs_bit_pos s1" "bs_bit_pos s1 < 8" by (rule adv)+
      show "0 \<le> bs_byte_pos s1" using adv(4) less.prems(3) by simp
      show "bits_written + k \<le> bit_count" using k by (simp add: m_def)
      show "position s1 + (bit_count - (bits_written + k)) \<le> 8 * int (length (bs_buffer s1))"
        using less.prems(5) by (simp add: adv pos0 len)
    qed
    then obtain buf' where
      r1: "BitStream_write_loop v bit_count s1 (bits_written + k) =
            (Inr (),
             s1\<lparr>bs_buffer := buf',
               bs_byte_pos := (position s1 + (bit_count - (bits_written + k))) div 8,
               bs_bit_pos := (position s1 + (bit_count - (bits_written + k))) mod 8\<rparr>)" and
      r2: "length buf' = length (bs_buffer s1)" and
      r3: "\<forall>i. 0 \<le> i \<longrightarrow> bit_at buf' i =
                 (if position s1 \<le> i \<and> i < position s1 + (bit_count - (bits_written + k))
                  then bit v (nat (position s1 + (bit_count - (bits_written + k)) - 1 - i))
                  else bit_at (bs_buffer s1) i)"
      by blast
    have pm: "position s1 + (bit_count - (bits_written + k)) = position s + m"
      by (simp add: adv pos0 m_def)
    have st: "s1\<lparr>bs_buffer := buf', bs_byte_pos := a, bs_bit_pos := b\<rparr>
                = s\<lparr>bs_buffer := buf', bs_byte_pos := a, bs_bit_pos := b\<rparr>" for a b
      by (simp add: s1_def advance_buffer_update)
    have b': "BitStream_write_loop v bit_count s1 (bits_written + k) =
            (Inr (), s\<lparr>bs_buffer := buf', bs_byte_pos := (position s + m) div 8,
                        bs_bit_pos := (position s + m) mod 8\<rparr>)"
      "length buf' = length (bs_buffer s)"
      using r1 r2 unfolding pm st by (simp_all add: adv len)
    have b'3: "bit_at buf' i =
                 (if position s + k \<le> i \<and> i < position s + m
                  then bit v (nat (position s + m - 1 - i))
                  else bit_at B i)" if "0 \<le> i" for i
      using r3 that unfolding pm by (simp add: adv pos0)
    have "\<forall>i. 0 \<le> i \<longrightarrow> bit_at buf' i =
                 (if position s \<le> i \<and> i < position s + m
                  then bit v (nat (position s + m - 1 - i))
                  else bit_at (bs_buffer s) i)"
    proof (intro allI impI)
      fix i :: int
      assume i0: "0 \<le> i"
      show "bit_at buf' i =
                 (if position s \<le> i \<and> i < position s + m
                  then bit v (nat (position s + m - 1 - i))
                  else bit_at (bs_buffer s) i)"
      proof (cases "position s \<le> i \<and> i < position s + k")
        case True
        then have "nat (m - k) + nat (position s + k - 1 - i) = nat (position s + m - 1 - i)"
          using k by linarith
        then have "bit e (nat (position s + k - 1 - i)) = bit v (nat (position s + m - 1 - i))"
          by (simp add: e_def bit_simps)
        then show ?thesis using True k b'3[OF i0] Bbit[OF i0] by auto
      next
        case False
        then show ?thesis using k b'3[OF i0] Bbit[OF i0] by auto
      qed
    qed
    then show ?thesis
      unfolding step b'(1) m_def[symmetric] using b'(2) by auto
  qed
qed


subsection \<open>write\_bits, read\_bits and set\_position\<close>

lemma position_cursor [simp]:
  "position (s\<lparr>bs_byte_pos := a div 8, bs_bit_pos := a mod 8\<rparr>) = a"
  by (simp add: position_def)

lemma bit_at_append:
  assumes "0 \<le> i" "i < 8 * int (length buf)"
  shows "bit_at (buf @ zs) i = bit_at buf i"
proof -
  have "nat (i div 8) < length buf" using assms by linarith
  then show ?thesis by (simp add: bit_at_def nth_append)
qed

lemma BitStream_write_bits_spec:
  assumes "0 \<le> bs_bit_pos s" "bs_bit_pos s < 8" "0 \<le> bs_byte_pos s" "0 < n" "n \<le> 64"
  shows "\<exists>s'. BitStream_write_bits s v n = (Inr (), s')
     \<and> position s' = position s + n
     \<and> 0 \<le> bs_bit_pos s' \<and> bs_bit_pos s' < 8 \<and> 0 \<le> bs_byte_pos s'
     \<and> bs_bit_length s' = max (bs_bit_length s) (position s + n)
     \<and> length (bs_buffer s) \<le> length (bs_buffer s')
     \<and> position s + n \<le> 8 * int (length (bs_buffer s'))
     \<and> (\<forall>i. position s \<le> i \<and> i < position s + n \<longrightarrow>
            bit_at (bs_buffer s') i = bit v (nat (position s + n - 1 - i)))
     \<and> (\<forall>i. 0 \<le> i \<and> i < 8 * int (length (bs_buffer s)) \<and>
              \<not> (position s \<le> i \<and> i < position s + n) \<longrightarrow>
            bit_at (bs_buffer s') i = bit_at (bs_buffer s) i)"
proof -
  define req where "req = (position s + n + 7) div 8"
  define zs where "zs = replicate (nat (req - int (length (bs_buffer s)))) (0::int)"
  define s1 where "s1 = (if req > int (length (bs_buffer s))
                         then s\<lparr>bs_buffer := bs_buffer s @ zs\<rparr> else s)"
  have p0: "0 \<le> position s" using assms by (simp add: position_def)
  have cur: "bs_bit_pos s1 = bs_bit_pos s" "bs_byte_pos s1 = bs_byte_pos s"
    "bs_bit_length s1 = bs_bit_length s" "position s1 = position s"
    by (simp_all add: s1_def position_def)
  have req: "position s + n \<le> 8 * req" unfolding req_def by linarith
  have len1: "req \<le> int (length (bs_buffer s1))" "length (bs_buffer s) \<le> length (bs_buffer s1)"
    by (auto simp add: s1_def zs_def)
  have frame1: "bit_at (bs_buffer s1) i = bit_at (bs_buffer s) i"
    if "0 \<le> i" "i < 8 * int (length (bs_buffer s))" for i
    using that by (simp add: s1_def bit_at_append)
  have "\<exists>buf'. BitStream_write_loop v n s1 0 =
            (Inr (),
             s1\<lparr>bs_buffer := buf',
               bs_byte_pos := (position s1 + (n - 0)) div 8,
               bs_bit_pos := (position s1 + (n - 0)) mod 8\<rparr>)
          \<and> length buf' = length (bs_buffer s1)
          \<and> (\<forall>i. 0 \<le> i \<longrightarrow> bit_at buf' i =
                 (if position s1 \<le> i \<and> i < position s1 + (n - 0)
                  then bit v (nat (position s1 + (n - 0) - 1 - i))
                  else bit_at (bs_buffer s1) i))"
    by (rule BitStream_write_loop_bits) (use assms req len1 in \<open>simp_all add: cur\<close>)
  then obtain buf' where
    w1: "BitStream_write_loop v n s1 0 =
            (Inr (), s1\<lparr>bs_buffer := buf', bs_byte_pos := (position s + n) div 8,
               bs_bit_pos := (position s + n) mod 8\<rparr>)" and
    w2: "length buf' = length (bs_buffer s1)" and
    w3: "\<forall>i. 0 \<le> i \<longrightarrow> bit_at buf' i =
                 (if position s \<le> i \<and> i < position s + n
                  then bit v (nat (position s + n - 1 - i))
                  else bit_at (bs_buffer s1) i)"
    unfolding cur by auto
  define s2 where "s2 = s1\<lparr>bs_buffer := buf', bs_byte_pos := (position s + n) div 8,
               bs_bit_pos := (position s + n) mod 8\<rparr>"
  define s' where "s' = (if position s2 > bs_bit_length s2
                         then s2\<lparr>bs_bit_length := position s2\<rparr> else s2)"
  have nb: "\<not> (n \<le> 0 \<or> n > 64)" using assms by simp
  have res: "BitStream_write_bits s v n = (Inr (), s')"
    apply (simp only: BitStream_write_bits_def Let_def nb if_False flip: req_def)
    apply (simp only: flip: zs_def)
    apply (simp only: flip: s1_def)
    apply (simp only: w1 prod.case sum.case flip: s2_def)
    apply (simp only: flip: s'_def)
    done
  have ps2: "position s2 = position s + n" by (simp add: s2_def)
  have f: "bs_buffer s' = buf'" "bs_byte_pos s' = (position s + n) div 8"
    "bs_bit_pos s' = (position s + n) mod 8" "position s' = position s + n"
    "bs_bit_length s' = max (bs_bit_length s) (position s + n)"
    by (auto simp add: s'_def ps2 position_def s2_def cur)
  have "0 \<le> bs_byte_pos s'" using p0 assms unfolding f by (simp add: pos_imp_zdiv_nonneg_iff)
  moreover have "\<forall>i. 0 \<le> i \<and> i < 8 * int (length (bs_buffer s)) \<and>
              \<not> (position s \<le> i \<and> i < position s + n) \<longrightarrow>
            bit_at buf' i = bit_at (bs_buffer s) i"
    using w3 frame1 by auto
  moreover have "\<forall>i. position s \<le> i \<and> i < position s + n \<longrightarrow>
            bit_at buf' i = bit v (nat (position s + n - 1 - i))"
    using w3 p0 by auto
  moreover have "position s + n \<le> 8 * int (length buf')" using req len1 w2 by linarith
  moreover have "length (bs_buffer s) \<le> length buf'" using len1 w2 by simp
  ultimately show ?thesis
    using res by (intro exI[of _ s']) (simp add: f)
qed

lemma BitStream_read_bits_spec:
  assumes "0 \<le> bs_bit_pos s" "bs_bit_pos s < 8" "0 \<le> bs_byte_pos s" "0 < n" "n \<le> 64"
    "position s + n \<le> bs_bit_length s" "position s + n \<le> 8 * int (length (bs_buffer s))"
  shows "\<exists>X s'. BitStream_read_bits s n = (Inr X, s')
     \<and> bs_buffer s' = bs_buffer s \<and> bs_bit_length s' = bs_bit_length s
     \<and> position s' = position s + n
     \<and> 0 \<le> bs_bit_pos s' \<and> bs_bit_pos s' < 8 \<and> 0 \<le> bs_byte_pos s'
     \<and> (\<forall>j. bit X j \<longleftrightarrow> int j < n \<and> bit_at (bs_buffer s) (position s + n - 1 - int j))"
proof -
  have p0: "0 \<le> position s" using assms by (simp add: position_def)
  have "\<exists>X. BitStream_read_loop n s 0 0 =
            (Inr (0 OR X),
             s\<lparr>bs_byte_pos := (position s + (n - 0)) div 8,
               bs_bit_pos := (position s + (n - 0)) mod 8\<rparr>)
          \<and> (\<forall>j. bit X j \<longleftrightarrow> int j < n - 0 \<and>
                 bit_at (bs_buffer s) (position s + (n - 0) - 1 - int j))"
    by (rule BitStream_read_loop_bits) (use assms in simp_all)
  then obtain X where
    r1: "BitStream_read_loop n s 0 0 =
            (Inr X, s\<lparr>bs_byte_pos := (position s + n) div 8,
               bs_bit_pos := (position s + n) mod 8\<rparr>)" and
    r2: "\<forall>j. bit X j \<longleftrightarrow> int j < n \<and> bit_at (bs_buffer s) (position s + n - 1 - int j)"
    by auto
  have "BitStream_read_bits s n = (Inr X, s\<lparr>bs_byte_pos := (position s + n) div 8,
               bs_bit_pos := (position s + n) mod 8\<rparr>)"
    using assms r1 by (simp add: BitStream_read_bits_def)
  moreover have "0 \<le> (position s + n) div 8"
    using p0 assms by (simp add: pos_imp_zdiv_nonneg_iff)
  ultimately show ?thesis using r2 by simp
qed

lemma set_position_spec:
  assumes "0 \<le> p" "p \<le> bs_bit_length s"
  shows "\<exists>s'. set_position s p = (Inr (), s')
     \<and> bs_buffer s' = bs_buffer s \<and> bs_bit_length s' = bs_bit_length s \<and> position s' = p
     \<and> 0 \<le> bs_bit_pos s' \<and> bs_bit_pos s' < 8 \<and> 0 \<le> bs_byte_pos s'"
  using assms by (simp add: set_position_def pos_imp_zdiv_nonneg_iff)

lemma bits_eq_take_bit:
  assumes "\<forall>j. bit X j \<longleftrightarrow> int j < n \<and> bit (v::int) j"
  shows "X = take_bit (nat n) v"
proof (rule bit_eqI)
  fix j
  have "int j < n \<longleftrightarrow> j < nat n" by linarith
  then show "bit X j = bit (take_bit (nat n) v) j" using assms by (simp add: bit_simps)
qed


lemma BitStream_write_then_read:
  assumes "0 \<le> bs_bit_pos s" "bs_bit_pos s < 8" "0 \<le> bs_byte_pos s" "0 < n" "n \<le> 64"
  shows "\<exists>s1 s2 s3. BitStream_write_bits s v n = (Inr (), s1)
     \<and> (\<forall>i. position s \<le> i \<and> i < position s + n \<longrightarrow>
            bit_at (bs_buffer s1) i = bit v (nat (position s + n - 1 - i)))
     \<and> set_position s1 (position s) = (Inr (), s2)
     \<and> BitStream_read_bits s2 n = (Inr (take_bit (nat n) v), s3)"
proof -
  have p0: "0 \<le> position s" using assms by (simp add: position_def)
  obtain s1 where w: "BitStream_write_bits s v n = (Inr (), s1)"
    "bs_bit_length s1 = max (bs_bit_length s) (position s + n)"
    "position s + n \<le> 8 * int (length (bs_buffer s1))"
    "\<forall>i. position s \<le> i \<and> i < position s + n \<longrightarrow>
            bit_at (bs_buffer s1) i = bit v (nat (position s + n - 1 - i))"
    using BitStream_write_bits_spec[OF assms, of v] by blast
  have "position s \<le> bs_bit_length s1" using w(2) assms by simp
  from set_position_spec[OF p0 this]
  obtain s2 where sp: "set_position s1 (position s) = (Inr (), s2)"
    "bs_buffer s2 = bs_buffer s1" "bs_bit_length s2 = bs_bit_length s1"
    "position s2 = position s" "0 \<le> bs_bit_pos s2" "bs_bit_pos s2 < 8" "0 \<le> bs_byte_pos s2"
    by blast
  have "\<exists>X s'. BitStream_read_bits s2 n = (Inr X, s')
     \<and> bs_buffer s' = bs_buffer s2 \<and> bs_bit_length s' = bs_bit_length s2
     \<and> position s' = position s2 + n
     \<and> 0 \<le> bs_bit_pos s' \<and> bs_bit_pos s' < 8 \<and> 0 \<le> bs_byte_pos s'
     \<and> (\<forall>j. bit X j \<longleftrightarrow> int j < n \<and> bit_at (bs_buffer s2) (position s2 + n - 1 - int j))"
    by (rule BitStream_read_bits_spec) (use sp w assms in simp_all)
  then obtain X s3 where r: "BitStream_read_bits s2 n = (Inr X, s3)"
    "\<forall>j. bit X j \<longleftrightarrow> int j < n \<and> bit_at (bs_buffer s1) (position s + n - 1 - int j)"
    unfolding sp by blast
  have "\<forall>j. bit X j \<longleftrightarrow> int j < n \<and> bit v j"
  proof
    fix j
    show "bit X j \<longleftrightarrow> int j < n \<and> bit v j"
    proof (cases "int j < n")
      case True
      then have "bit_at (bs_buffer s1) (position s + n - 1 - int j)
                   = bit v (nat (position s + n - 1 - (position s + n - 1 - int j)))"
        using w(4) by simp
      then show ?thesis using r(2) True by simp
    next
      case False
      then show ?thesis using r(2) by simp
    qed
  qed
  then have "X = take_bit (nat n) v" by (rule bits_eq_take_bit)
  then show ?thesis using w(1,4) sp(1) r(1) by blast
qed


lemma BitStream_write_then_read_u128:
  assumes "0 \<le> bs_bit_pos s" "bs_bit_pos s < 8" "0 \<le> bs_byte_pos s" "0 < n" "n \<le> 128"
  shows "\<exists>s1 s2 s3. BitStream_write_bits_u128 s v n = (Inr (), s1)
     \<and> set_position s1 (position s) = (Inr (), s2)
     \<and> BitStream_read_bits_u128 s2 n = (Inr (take_bit (nat n) v), s3)"
proof (cases "n \<le> 64")
  case True
  then show ?thesis
    using BitStream_write_then_read[OF assms(1,2,3,4) True, of v] assms
    by (auto simp add: BitStream_write_bits_u128_def BitStream_read_bits_u128_def)
next
  case False
  define h where "h = n - 64"
  define hv where "hv = drop_bit 64 v"
  define lv where "lv = v AND (push_bit 64 1 - 1)"
  define p where "p = position s"
  have h: "0 < h" "h \<le> 64" using False assms by (simp_all add: h_def)
  have p0: "0 \<le> p" using assms by (simp add: position_def p_def)
  obtain s1 where w1: "BitStream_write_bits s hv h = (Inr (), s1)"
    "position s1 = p + h" "0 \<le> bs_bit_pos s1" "bs_bit_pos s1 < 8" "0 \<le> bs_byte_pos s1"
    "bs_bit_length s1 = max (bs_bit_length s) (p + h)"
    "p + h \<le> 8 * int (length (bs_buffer s1))"
    "\<forall>i. p \<le> i \<and> i < p + h \<longrightarrow> bit_at (bs_buffer s1) i = bit hv (nat (p + h - 1 - i))"
    using BitStream_write_bits_spec[OF assms(1,2,3) h, of hv] unfolding p_def by blast
  have sixty: "(0::int) < 64" "(64::int) \<le> 64" by simp_all
  obtain s2 where w2: "BitStream_write_bits s1 lv 64 = (Inr (), s2)"
    "bs_bit_length s2 = max (bs_bit_length s1) (position s1 + 64)"
    "position s1 + 64 \<le> 8 * int (length (bs_buffer s2))"
    "\<forall>i. position s1 \<le> i \<and> i < position s1 + 64 \<longrightarrow>
            bit_at (bs_buffer s2) i = bit lv (nat (position s1 + 64 - 1 - i))"
    "\<forall>i. 0 \<le> i \<and> i < 8 * int (length (bs_buffer s1)) \<and>
              \<not> (position s1 \<le> i \<and> i < position s1 + 64) \<longrightarrow>
            bit_at (bs_buffer s2) i = bit_at (bs_buffer s1) i"
    using BitStream_write_bits_spec[OF w1(3,4,5) sixty, of lv] by blast
  have lvn: "v AND 18446744073709551615 = lv" by (simp add: lv_def)
  have wr: "BitStream_write_bits_u128 s v n = (Inr (), s2)"
    using False assms w1(1) w2(1)
    by (simp add: BitStream_write_bits_u128_def Let_def lvn
          flip: h_def hv_def)
  have bl2: "p + n \<le> bs_bit_length s2" using w2(2) w1(2) by (simp add: h_def)
  have hi: "bit_at (bs_buffer s2) i = bit hv (nat (p + h - 1 - i))" if "p \<le> i" "i < p + h" for i
    using that w2(5) w1(7,8,2) p0 by auto
  have lo: "bit_at (bs_buffer s2) i = bit lv (nat (p + n - 1 - i))" if "p + h \<le> i" "i < p + n" for i
    using that w2(4) w1(2) by (simp add: h_def)
  have "p \<le> bs_bit_length s2" using bl2 assms by simp
  from set_position_spec[OF p0 this]
  obtain s3 where sp: "set_position s2 p = (Inr (), s3)"
    "bs_buffer s3 = bs_buffer s2" "bs_bit_length s3 = bs_bit_length s2"
    "position s3 = p" "0 \<le> bs_bit_pos s3" "bs_bit_pos s3 < 8" "0 \<le> bs_byte_pos s3"
    by blast
  have "\<exists>X s'. BitStream_read_bits s3 h = (Inr X, s')
     \<and> bs_buffer s' = bs_buffer s3 \<and> bs_bit_length s' = bs_bit_length s3
     \<and> position s' = position s3 + h
     \<and> 0 \<le> bs_bit_pos s' \<and> bs_bit_pos s' < 8 \<and> 0 \<le> bs_byte_pos s'
     \<and> (\<forall>j. bit X j \<longleftrightarrow> int j < h \<and> bit_at (bs_buffer s3) (position s3 + h - 1 - int j))"
    by (rule BitStream_read_bits_spec) (use sp h bl2 w2(3) w1(2) in \<open>simp_all add: h_def\<close>)
  then obtain X1 s4 where r1: "BitStream_read_bits s3 h = (Inr X1, s4)"
    "bs_buffer s4 = bs_buffer s2" "bs_bit_length s4 = bs_bit_length s2"
    "position s4 = p + h" "0 \<le> bs_bit_pos s4" "bs_bit_pos s4 < 8" "0 \<le> bs_byte_pos s4"
    "\<forall>j. bit X1 j \<longleftrightarrow> int j < h \<and> bit_at (bs_buffer s2) (p + h - 1 - int j)"
    unfolding sp by blast
  have "\<exists>X s'. BitStream_read_bits s4 64 = (Inr X, s')
     \<and> bs_buffer s' = bs_buffer s4 \<and> bs_bit_length s' = bs_bit_length s4
     \<and> position s' = position s4 + 64
     \<and> 0 \<le> bs_bit_pos s' \<and> bs_bit_pos s' < 8 \<and> 0 \<le> bs_byte_pos s'
     \<and> (\<forall>j. bit X j \<longleftrightarrow> int j < 64 \<and> bit_at (bs_buffer s4) (position s4 + 64 - 1 - int j))"
    by (rule BitStream_read_bits_spec) (use r1 bl2 w2(3) w1(2) in \<open>simp_all add: h_def\<close>)
  then obtain X2 s5 where r2: "BitStream_read_bits s4 64 = (Inr X2, s5)"
    "\<forall>j. bit X2 j \<longleftrightarrow> int j < 64 \<and> bit_at (bs_buffer s2) (p + n - 1 - int j)"
    unfolding r1 by (auto simp add: h_def)
  have "\<forall>j. bit X1 j \<longleftrightarrow> int j < h \<and> bit hv j"
  proof
    fix j
    show "bit X1 j \<longleftrightarrow> int j < h \<and> bit hv j"
    proof (cases "int j < h")
      case True
      then have "bit_at (bs_buffer s2) (p + h - 1 - int j)
                   = bit hv (nat (p + h - 1 - (p + h - 1 - int j)))"
        by (intro hi) simp_all
      then show ?thesis using r1(8) True by simp
    next
      case False
      then show ?thesis using r1(8) by simp
    qed
  qed
  then have X1: "X1 = take_bit (nat h) hv" by (rule bits_eq_take_bit)
  have "\<forall>j. bit X2 j \<longleftrightarrow> int j < 64 \<and> bit lv j"
  proof
    fix j
    show "bit X2 j \<longleftrightarrow> int j < 64 \<and> bit lv j"
    proof (cases "int j < 64")
      case True
      then have "bit_at (bs_buffer s2) (p + n - 1 - int j)
                   = bit lv (nat (p + n - 1 - (p + n - 1 - int j)))"
        by (intro lo) (simp_all add: h_def)
      then show ?thesis using r2(2) True by simp
    next
      case False
      then show ?thesis using r2(2) by simp
    qed
  qed
  then have "X2 = take_bit (nat 64) lv" by (rule bits_eq_take_bit)
  then have X2: "X2 = take_bit 64 v"
    by (simp add: lv_def take_bit_eq_mask mask_eq_exp_minus_1)
  have "push_bit 64 X1 OR X2 = take_bit (64 + nat h) v"
    unfolding X1 X2 hv_def by (rule chunk_join)
  moreover have "64 + nat h = nat n" using h by (simp add: h_def)
  ultimately have comb: "push_bit 64 X1 OR X2 = take_bit (nat n) v" by simp
  have "BitStream_read_bits_u128 s3 n = (Inr (take_bit (nat n) v), s5)"
    using False assms bl2 sp(3,4) r1(1) r2(1) comb
    by (simp add: BitStream_read_bits_u128_def Let_def flip: h_def)
  then show ?thesis using wr sp(1) unfolding p_def by blast
qed

section \<open>Invariant and atomicity of BitStream\<close>

lemma bytearray_set_length:
  "bytearray_set buf i x = Inr buf' \<Longrightarrow> length buf' = length buf"
  by (auto simp add: bytearray_set_def split: option.splits if_splits)

lemma bytearray_iand_length:
  "bytearray_iand buf i x = Inr buf' \<Longrightarrow> length buf' = length buf"
  by (auto simp add: bytearray_iand_def dest: bytearray_set_length split: sum.splits)

lemma bytearray_ior_length:
  "bytearray_ior buf i x = Inr buf' \<Longrightarrow> length buf' = length buf"
  by (auto simp add: bytearray_ior_def dest: bytearray_set_length split: sum.splits)

lemma bytearray_get_error: "bytearray_get buf i = Inl e \<Longrightarrow> e = IndexError"
  by (auto simp add: bytearray_get_def split: option.splits)

lemma bytearray_set_error: "bytearray_set buf i x = Inl e \<Longrightarrow> e = IndexError \<or> e = ValueError"
  by (auto simp add: bytearray_set_def split: option.splits if_splits)

lemma bytearray_iand_error: "bytearray_iand buf i x = Inl e \<Longrightarrow> e = IndexError \<or> e = ValueError"
  by (auto simp add: bytearray_iand_def dest: bytearray_set_error bytearray_get_error split: sum.splits)

lemma bytearray_ior_error: "bytearray_ior buf i x = Inl e \<Longrightarrow> e = IndexError \<or> e = ValueError"
  by (auto simp add: bytearray_ior_def dest: bytearray_set_error bytearray_get_error split: sum.splits)

lemma BitStream_read_loop_unfold:
  assumes "bits_read < bit_count" "0 \<le> bs_bit_pos s" "bs_bit_pos s < 8"
  shows "BitStream_read_loop bit_count s result bits_read =
     (if bs_byte_pos s \<ge> int (length (bs_buffer s)) then
        (if bits_read = 0 then (Inl EndOfStreamError, s) else (Inr result, s))
      else
        (case bytearray_get (bs_buffer s) (bs_byte_pos s) of
           Inl e \<Rightarrow> (Inl e, s)
         | Inr current_byte \<Rightarrow>
            (let k = min (bit_count - bits_read) (8 - bs_bit_pos s) in
             BitStream_read_loop bit_count (advance s k)
               (result OR push_bit (nat (bit_count - bits_read - k))
                  (drop_bit (nat (8 - bs_bit_pos s - k)) current_byte AND (push_bit (nat k) 1 - 1)))
               (bits_read + k))))"
proof -
  have k: "\<not> min (bit_count - bits_read) (8 - bs_bit_pos s) < 0" using assms by simp
  show ?thesis
    apply (subst BitStream_read_loop.simps)
    apply (simp only: assms(1) if_True Let_def k if_False advance_def)
    done
qed

lemma BitStream_write_loop_unfold:
  assumes "bits_written < bit_count" "0 \<le> bs_bit_pos s" "bs_bit_pos s < 8"
  shows "BitStream_write_loop v bit_count s bits_written =
     (let k = min (bit_count - bits_written) (8 - bs_bit_pos s);
          shift = bit_count - bits_written - k;
          byte_shift = 8 - bs_bit_pos s - k
      in case bytearray_iand (bs_buffer s) (bs_byte_pos s)
                (NOT (push_bit (nat byte_shift) (push_bit (nat k) 1 - 1)) AND 0xFF) of
           Inl e \<Rightarrow> (Inl e, s)
         | Inr buf1 \<Rightarrow>
            (case bytearray_ior buf1 (bs_byte_pos s)
                    (push_bit (nat byte_shift)
                       (drop_bit (nat shift) (v AND push_bit (nat shift) (push_bit (nat k) 1 - 1)))) of
               Inl e \<Rightarrow> (Inl e, s\<lparr>bs_buffer := buf1\<rparr>)
             | Inr buf2 \<Rightarrow>
                 BitStream_write_loop v bit_count (advance (s\<lparr>bs_buffer := buf2\<rparr>) k)
                   (bits_written + k)))"
proof -
  have k: "\<not> min (bit_count - bits_written) (8 - bs_bit_pos s) < 0" using assms by simp
  have a: "advance (s\<lparr>bs_buffer := b\<rparr>) k =
     (if bs_bit_pos s + k = 8 then s\<lparr>bs_buffer := b, bs_byte_pos := bs_byte_pos s + 1, bs_bit_pos := 0\<rparr>
      else s\<lparr>bs_buffer := b, bs_bit_pos := bs_bit_pos s + k\<rparr>)" for b k
    by (simp add: advance_def)
  show ?thesis
    apply (subst BitStream_write_loop.simps)
    apply (simp only: assms(1) if_True Let_def k if_False a)
    done
qed


lemma advance_any:
  assumes "0 \<le> bs_bit_pos s" "0 < k" "bs_bit_pos s + k \<le> 8"
  shows "bs_buffer (advance s k) = bs_buffer s" "bs_bit_length (advance s k) = bs_bit_length s"
    "position (advance s k) = position s + k"
    "0 \<le> bs_bit_pos (advance s k)" "bs_bit_pos (advance s k) < 8"
  using assms by (auto simp add: advance_def position_def)

lemma BitStream_read_loop_frame:
  assumes "0 \<le> bs_bit_pos s" "bs_bit_pos s < 8"
    "BitStream_read_loop n s res br = (r, s')"
  shows "bs_buffer s' = bs_buffer s \<and> bs_bit_length s' = bs_bit_length s
     \<and> 0 \<le> bs_bit_pos s' \<and> bs_bit_pos s' < 8
     \<and> position s \<le> position s' \<and> position s' \<le> position s + max 0 (n - br)"
  using assms
proof (induction "nat (n - br)" arbitrary: s res br rule: less_induct)
  case less
  show ?case
  proof (cases "br < n")
    case False
    then have "BitStream_read_loop n s res br = (Inr res, s)"
      by (subst BitStream_read_loop.simps) simp
    then show ?thesis using less.prems by simp
  next
    case True
    define k where "k = min (n - br) (8 - bs_bit_pos s)"
    have k: "0 < k" "bs_bit_pos s + k \<le> 8" "k \<le> n - br"
      using True less.prems by (auto simp: k_def)
    note adv = advance_any[OF less.prems(1) k(1,2)]
    note u = BitStream_read_loop_unfold[OF True less.prems(1,2), of res, folded k_def]
    show ?thesis
    proof (cases "bs_byte_pos s \<ge> int (length (bs_buffer s))")
      case True
      then have "s' = s" using less.prems(3) unfolding u by (auto split: if_splits)
      then show ?thesis using less.prems by simp
    next
      case out: False
      show ?thesis
      proof (cases "bytearray_get (bs_buffer s) (bs_byte_pos s)")
        case (Inl e)
        then have "s' = s" using less.prems(3) out unfolding u by simp
        then show ?thesis using less.prems by simp
      next
        case (Inr b)
        then have rec: "BitStream_read_loop n (advance s k)
               (res OR push_bit (nat (n - br - k))
                  (drop_bit (nat (8 - bs_bit_pos s - k)) b AND (push_bit (nat k) 1 - 1)))
               (br + k) = (r, s')"
          using less.prems(3) out unfolding u by (simp add: Let_def)
        have "nat (n - (br + k)) < nat (n - br)" using k True by linarith
        from less.hyps[OF this adv(4,5) rec]
        show ?thesis using k unfolding adv by auto
      qed
    qed
  qed
qed

lemma BitStream_read_loop_raises:
  assumes "0 \<le> bs_bit_pos s" "bs_bit_pos s < 8" "0 \<le> br"
    "BitStream_read_loop n s res br = (Inl e, s')"
    "e = InvalidBitCountError \<or> e = EndOfStreamError"
  shows "s' = s \<and> int (length (bs_buffer s)) \<le> bs_byte_pos s \<and> br = 0"
  using assms
proof (induction "nat (n - br)" arbitrary: s res br rule: less_induct)
  case less
  show ?case
  proof (cases "br < n")
    case False
    then have "BitStream_read_loop n s res br = (Inr res, s)"
      by (subst BitStream_read_loop.simps) simp
    then show ?thesis using less.prems by simp
  next
    case True
    define k where "k = min (n - br) (8 - bs_bit_pos s)"
    have k: "0 < k" "bs_bit_pos s + k \<le> 8" "k \<le> n - br"
      using True less.prems by (auto simp: k_def)
    note adv = advance_any[OF less.prems(1) k(1,2)]
    note u = BitStream_read_loop_unfold[OF True less.prems(1,2), of res, folded k_def]
    show ?thesis
    proof (cases "bs_byte_pos s \<ge> int (length (bs_buffer s))")
      case True
      then show ?thesis using less.prems(4) unfolding u by (auto split: if_splits)
    next
      case out: False
      show ?thesis
      proof (cases "bytearray_get (bs_buffer s) (bs_byte_pos s)")
        case (Inl e')
        then have "e = IndexError"
          using less.prems(4) out bytearray_get_error[OF Inl] unfolding u by simp
        then show ?thesis using less.prems(5) by simp
      next
        case (Inr b)
        then have rec: "BitStream_read_loop n (advance s k)
               (res OR push_bit (nat (n - br - k))
                  (drop_bit (nat (8 - bs_bit_pos s - k)) b AND (push_bit (nat k) 1 - 1)))
               (br + k) = (Inl e, s')"
          using less.prems(4) out unfolding u by (simp add: Let_def)
        have "nat (n - (br + k)) < nat (n - br)" using k True by linarith
        moreover have "0 \<le> br + k" using k less.prems(3) by simp
        ultimately have "br + k = 0"
          using less.hyps[OF _ adv(4,5) _ rec less.prems(5)] by blast
        then show ?thesis using k less.prems(3) by simp
      qed
    qed
  qed
qed

lemma BitStream_write_loop_frame:
  assumes "0 \<le> bs_bit_pos s" "bs_bit_pos s < 8"
    "BitStream_write_loop v n s bw = (r, s')"
  shows "length (bs_buffer s') = length (bs_buffer s) \<and> bs_bit_length s' = bs_bit_length s
     \<and> 0 \<le> bs_bit_pos s' \<and> bs_bit_pos s' < 8
     \<and> (r = Inr () \<longrightarrow> position s' = position s + max 0 (n - bw))
     \<and> r \<noteq> Inl InvalidBitCountError \<and> r \<noteq> Inl EndOfStreamError"
  using assms
proof (induction "nat (n - bw)" arbitrary: s bw rule: less_induct)
  case less
  show ?case
  proof (cases "bw < n")
    case False
    then have "BitStream_write_loop v n s bw = (Inr (), s)"
      by (subst BitStream_write_loop.simps) simp
    then show ?thesis using less.prems False by auto
  next
    case True
    define k where "k = min (n - bw) (8 - bs_bit_pos s)"
    have k: "0 < k" "bs_bit_pos s + k \<le> 8" "k \<le> n - bw"
      using True less.prems by (auto simp: k_def)
    define bm where "bm = NOT (push_bit (nat (8 - bs_bit_pos s - k)) (push_bit (nat k) 1 - 1)) AND (0xFF::int)"
    define x where "x = push_bit (nat (8 - bs_bit_pos s - k))
                       (drop_bit (nat (n - bw - k)) (v AND push_bit (nat (n - bw - k)) (push_bit (nat k) 1 - (1::int))))"
    have u: "BitStream_write_loop v n s bw =
      (case bytearray_iand (bs_buffer s) (bs_byte_pos s) bm of
           Inl e \<Rightarrow> (Inl e, s)
         | Inr buf1 \<Rightarrow>
            (case bytearray_ior buf1 (bs_byte_pos s) x of
               Inl e \<Rightarrow> (Inl e, s\<lparr>bs_buffer := buf1\<rparr>)
             | Inr buf2 \<Rightarrow>
                 BitStream_write_loop v n (advance (s\<lparr>bs_buffer := buf2\<rparr>) k) (bw + k)))"
      unfolding BitStream_write_loop_unfold[OF True less.prems(1,2), of v] Let_def
      by (simp only: flip: k_def bm_def x_def)
    show ?thesis
    proof (cases "bytearray_iand (bs_buffer s) (bs_byte_pos s) bm")
      case (Inl e)
      then have "r = Inl e" "s' = s" using less.prems(3) unfolding u by simp_all
      then show ?thesis using less.prems bytearray_iand_error[OF Inl] by auto
    next
      case buf1: (Inr buf1)
      note l1 = bytearray_iand_length[OF buf1]
      show ?thesis
      proof (cases "bytearray_ior buf1 (bs_byte_pos s) x")
        case (Inl e)
        then have "r = Inl e" "s' = s\<lparr>bs_buffer := buf1\<rparr>"
          using less.prems(3) buf1 unfolding u by simp_all
        then show ?thesis using less.prems bytearray_ior_error[OF Inl] l1 by auto
      next
        case buf2: (Inr buf2)
        note l2 = bytearray_ior_length[OF buf2]
        have rec: "BitStream_write_loop v n (advance (s\<lparr>bs_buffer := buf2\<rparr>) k) (bw + k) = (r, s')"
          using less.prems(3) buf1 buf2 unfolding u by simp
        have pre: "0 \<le> bs_bit_pos (s\<lparr>bs_buffer := buf2\<rparr>)"
          "bs_bit_pos (s\<lparr>bs_buffer := buf2\<rparr>) + k \<le> 8"
          using less.prems k by simp_all
        note adv = advance_any[OF pre(1) k(1) pre(2)]
        have "nat (n - (bw + k)) < nat (n - bw)" using k True by linarith
        from less.hyps[OF this adv(4,5) rec]
        show ?thesis using k l1 l2 unfolding adv by (auto simp add: position_def)
      qed
    qed
  qed
qed


lemma bs_inv_init: "bs_inv (BitStream_init data)"
  by (simp add: bs_inv_def BitStream_init_def position_def Let_def)

lemma BitStream_read_bits_frame:
  assumes "bs_inv s" "BitStream_read_bits s n = (r, s')"
  shows "bs_inv s' \<and> bs_buffer s' = bs_buffer s \<and> bs_bit_length s' = bs_bit_length s
     \<and> position s \<le> position s' \<and> position s' \<le> position s + max 0 n"
proof (cases "n \<le> 0 \<or> n > 64 \<or> position s + n > bs_bit_length s")
  case True
  then have "s' = s" using assms(2) by (auto simp add: BitStream_read_bits_def split: if_splits)
  then show ?thesis using assms(1) by simp
next
  case False
  then have "BitStream_read_loop n s 0 0 = (r, s')"
    using assms(2) by (simp add: BitStream_read_bits_def)
  from BitStream_read_loop_frame[OF _ _ this]
  show ?thesis using assms(1) False by (auto simp add: bs_inv_def)
qed

lemma BitStream_read_bits_raises:
  assumes "bs_inv s" "BitStream_read_bits s n = (Inl e, s')"
    "e = InvalidBitCountError \<or> e = EndOfStreamError"
  shows "s' = s \<and> (n \<le> 0 \<or> n > 64 \<or> position s + n > bs_bit_length s)"
proof (cases "n \<le> 0 \<or> n > 64 \<or> position s + n > bs_bit_length s")
  case True
  then show ?thesis using assms(2) by (auto simp add: BitStream_read_bits_def split: if_splits)
next
  case False
  then have "BitStream_read_loop n s 0 0 = (Inl e, s')"
    using assms(2) by (simp add: BitStream_read_bits_def)
  from BitStream_read_loop_raises[OF _ _ _ this assms(3)]
  have "int (length (bs_buffer s)) \<le> bs_byte_pos s" using assms(1) by (simp add: bs_inv_def)
  then show ?thesis using assms(1) False by (auto simp add: bs_inv_def position_def)
qed

lemma BitStream_read_bits_u128_frame:
  assumes "bs_inv s" "BitStream_read_bits_u128 s n = (r, s')"
  shows "bs_inv s'"
proof (cases "n \<le> 0 \<or> n > 128")
  case True
  then show ?thesis using assms by (auto simp add: BitStream_read_bits_u128_def)
next
  case False
  show ?thesis
  proof (cases "n \<le> 64")
    case True
    then show ?thesis using assms False BitStream_read_bits_frame[of s n r s']
      by (auto simp add: BitStream_read_bits_u128_def)
  next
    case big: False
    show ?thesis
    proof (cases "position s + n > bs_bit_length s")
      case True
      then show ?thesis using assms False big by (auto simp add: BitStream_read_bits_u128_def)
    next
      case chk: False
      obtain r1 s1 where r1: "BitStream_read_bits s (n - 64) = (r1, s1)" by force
      note f1 = BitStream_read_bits_frame[OF assms(1) r1]
      show ?thesis
      proof (cases r1)
        case (Inl e)
        then have "s' = s1" using assms(2) False big chk r1
          by (simp add: BitStream_read_bits_u128_def)
        then show ?thesis using f1 by simp
      next
        case (Inr hv)
        obtain r2 s2 where r2: "BitStream_read_bits s1 64 = (r2, s2)" by force
        have f2: "bs_inv s2" using BitStream_read_bits_frame[OF _ r2] f1 by simp
        have "s' = s2" using assms(2) False big chk r1 r2 Inr
          by (cases r2) (simp_all add: BitStream_read_bits_u128_def)
        then show ?thesis using f2 by simp
      qed
    qed
  qed
qed

lemma BitStream_read_bits_u128_raises:
  assumes "bs_inv s" "BitStream_read_bits_u128 s n = (Inl e, s')"
    "e = InvalidBitCountError \<or> e = EndOfStreamError"
  shows "s' = s"
proof (cases "n \<le> 0 \<or> n > 128")
  case True
  then show ?thesis using assms by (auto simp add: BitStream_read_bits_u128_def)
next
  case False
  show ?thesis
  proof (cases "n \<le> 64")
    case True
    then show ?thesis using assms False BitStream_read_bits_raises[of s n e s']
      by (auto simp add: BitStream_read_bits_u128_def)
  next
    case big: False
    show ?thesis
    proof (cases "position s + n > bs_bit_length s")
      case True
      then show ?thesis using assms False big by (auto simp add: BitStream_read_bits_u128_def)
    next
      case chk: False
      obtain r1 s1 where r1: "BitStream_read_bits s (n - 64) = (r1, s1)" by force
      note f1 = BitStream_read_bits_frame[OF assms(1) r1]
      show ?thesis
      proof (cases r1)
        case (Inl e1)
        then have "e1 = e" "s' = s1" using assms(2) False big chk r1
          by (simp_all add: BitStream_read_bits_u128_def)
        then show ?thesis using BitStream_read_bits_raises[OF assms(1) _ assms(3), of "n - 64" s1] r1 Inl
          by simp
      next
        case (Inr hv)
        obtain r2 s2 where r2: "BitStream_read_bits s1 64 = (r2, s2)" by force
        have "r2 = Inl e" using assms(2) False big chk r1 r2 Inr
          by (cases r2) (simp_all add: BitStream_read_bits_u128_def)
        then have "BitStream_read_bits s1 64 = (Inl e, s2)" using r2 by simp
        from BitStream_read_bits_raises[OF _ this assms(3)]
        have "position s1 + 64 > bs_bit_length s1" using f1 by simp
        then show ?thesis using f1 chk big by simp
      qed
    qed
  qed
qed


lemma BitStream_write_bits_frame:
  assumes "bs_inv s" "BitStream_write_bits s v n = (r, s')"
  shows "(r = Inr () \<longrightarrow> bs_inv s')
     \<and> (r = Inl InvalidBitCountError \<longrightarrow> s' = s \<and> (n \<le> 0 \<or> n > 64))
     \<and> r \<noteq> Inl EndOfStreamError"
proof (cases "n \<le> 0 \<or> n > 64")
  case True
  then show ?thesis using assms by (auto simp add: BitStream_write_bits_def)
next
  case False
  define req where "req = (position s + n + 7) div 8"
  define s1 where "s1 = (if req > int (length (bs_buffer s))
       then s\<lparr>bs_buffer := bs_buffer s @
                replicate (nat (req - int (length (bs_buffer s)))) 0\<rparr>
       else s)"
  obtain r2 s2 where l: "BitStream_write_loop v n s1 0 = (r2, s2)" by force
  have cur: "bs_bit_pos s1 = bs_bit_pos s" "bs_bit_length s1 = bs_bit_length s"
    "position s1 = position s"
    by (simp_all add: s1_def position_def)
  have len1: "req \<le> int (length (bs_buffer s1))" "length (bs_buffer s) \<le> length (bs_buffer s1)"
    by (auto simp add: s1_def)
  have req: "position s + n \<le> 8 * req" unfolding req_def by linarith
  have wf1: "0 \<le> bs_bit_pos s1" "bs_bit_pos s1 < 8" using assms(1) by (simp_all add: cur bs_inv_def)
  note f = BitStream_write_loop_frame[OF wf1 l]
  have res: "(r, s') = (case r2 of Inl e \<Rightarrow> (Inl e, s2)
       | Inr u \<Rightarrow> (Inr (), if position s2 > bs_bit_length s2
                           then s2\<lparr>bs_bit_length := position s2\<rparr> else s2))"
  proof -
    have "BitStream_write_bits s v n =
        (case BitStream_write_loop v n s1 0 of
              (Inl e, s2) \<Rightarrow> (Inl e, s2)
            | (Inr u, s2) \<Rightarrow>
               (Inr (), if position s2 > bs_bit_length s2
                        then s2\<lparr>bs_bit_length := position s2\<rparr> else s2))"
      apply (simp only: BitStream_write_bits_def Let_def False if_False flip: req_def)
      apply (simp only: flip: s1_def)
      done
    then show ?thesis using assms(2) l by (cases r2) auto
  qed
  show ?thesis
  proof (cases r2)
    case (Inl e)
    then show ?thesis using res f by auto
  next
    case (Inr u)
    then have s': "s' = (if position s2 > bs_bit_length s2
                           then s2\<lparr>bs_bit_length := position s2\<rparr> else s2)" "r = Inr ()"
      using res by simp_all
    have p2: "position s2 = position s + n" using f Inr False by (simp add: cur)
    have "bs_inv s'"
      using f p2 req len1 assms(1) False unfolding s'
      by (auto simp add: bs_inv_def cur position_def)
    then show ?thesis using s' by simp
  qed
qed

lemma BitStream_write_bits_u128_frame:
  assumes "bs_inv s" "BitStream_write_bits_u128 s v n = (r, s')"
  shows "(r = Inr () \<longrightarrow> bs_inv s')
     \<and> (r = Inl InvalidBitCountError \<longrightarrow> s' = s)
     \<and> r \<noteq> Inl EndOfStreamError"
proof (cases "n \<le> 0 \<or> n > 128")
  case True
  then show ?thesis using assms by (auto simp add: BitStream_write_bits_u128_def)
next
  case False
  show ?thesis
  proof (cases "n \<le> 64")
    case True
    then show ?thesis using assms False BitStream_write_bits_frame[of s v n r s']
      by (auto simp add: BitStream_write_bits_u128_def)
  next
    case big: False
    obtain r1 s1 where r1: "BitStream_write_bits s (drop_bit 64 v) (n - 64) = (r1, s1)" by force
    note f1 = BitStream_write_bits_frame[OF assms(1) r1]
    show ?thesis
    proof (cases r1)
      case (Inl e)
      then have "r = Inl e" "s' = s1" using assms(2) False big r1
        by (simp_all add: BitStream_write_bits_u128_def Let_def)
      then show ?thesis using f1 Inl big False by auto
    next
      case (Inr u)
      then have i1: "bs_inv s1" using f1 by simp
      have "BitStream_write_bits s1 (v AND (push_bit 64 1 - 1)) 64 = (r, s')"
        using assms(2) False big r1 Inr
        by (simp add: BitStream_write_bits_u128_def Let_def)
      from BitStream_write_bits_frame[OF i1 this]
      show ?thesis by auto
    qed
  qed
qed

lemma set_position_frame:
  assumes "bs_inv s" "set_position s p = (r, s')"
  shows "(r = Inr () \<longrightarrow> bs_inv s') \<and> (r \<noteq> Inr () \<longrightarrow> s' = s)"
  using assms by (auto simp add: set_position_def bs_inv_def split: if_splits)

lemma apply_operation_inv:
  assumes "bs_inv s" "apply_operation x s = (None, s')"
  shows "bs_inv s'"
proof (cases x)
  case (Read_bits n)
  obtain r t where e: "BitStream_read_bits s n = (r, t)" by force
  then have "t = s'" using assms(2) Read_bits by (cases r) simp_all
  then show ?thesis using BitStream_read_bits_frame[OF assms(1) e] by simp
next
  case (Read_bits_u128 n)
  obtain r t where e: "BitStream_read_bits_u128 s n = (r, t)" by force
  then have "t = s'" using assms(2) Read_bits_u128 by (cases r) simp_all
  then show ?thesis using BitStream_read_bits_u128_frame[OF assms(1) e] by simp
next
  case (Write_bits v n)
  obtain r t where e: "BitStream_write_bits s v n = (r, t)" by force
  then have "t = s' \<and> r = Inr ()" using assms(2) Write_bits by (cases r) simp_all
  then show ?thesis using BitStream_write_bits_frame[OF assms(1) e] by simp
next
  case (Write_bits_u128 v n)
  obtain r t where e: "BitStream_write_bits_u128 s v n = (r, t)" by force
  then have "t = s' \<and> r = Inr ()" using assms(2) Write_bits_u128 by (cases r) simp_all
  then show ?thesis using BitStream_write_bits_u128_frame[OF assms(1) e] by simp
next
  case (Set_position p)
  obtain r t where e: "set_position s p = (r, t)" by force
  then have "t = s' \<and> r = Inr ()" using assms(2) Set_position by (cases r) simp_all
  then show ?thesis using set_position_frame[OF assms(1) e] by simp
next
  case Reset
  then show ?thesis using assms by (auto simp add: reset_def bs_inv_def position_def)
next
  case (From_bytes data)
  then show ?thesis using assms by (auto simp add: from_bytes_def bs_inv_def position_def)
qed

lemma run_operations_inv:
  assumes "bs_inv s" "run_operations s xs = Some s'"
  shows "bs_inv s'"
  using assms
proof (induction xs arbitrary: s)
  case Nil
  then show ?case by simp
next
  case (Cons x xs)
  obtain r t where e: "apply_operation x s = (r, t)" by force
  then have r: "r = None" and rest: "run_operations t xs = Some s'"
    using Cons.prems(2) by (cases r; simp)+
  have "bs_inv t" using apply_operation_inv[OF Cons.prems(1)] e r by simp
  then show ?case using Cons.IH rest by blast
qed

lemma apply_operation_atomic:
  assumes "bs_inv s" "apply_operation x s = (Some e, s')"
    "e = InvalidBitCountError \<or> e = EndOfStreamError"
  shows "s' = s"
proof (cases x)
  case (Read_bits n)
  obtain r t where e: "BitStream_read_bits s n = (r, t)" by force
  then have "t = s' \<and> r = Inl e" using assms(2) Read_bits by (cases r) simp_all
  then show ?thesis using BitStream_read_bits_raises[OF assms(1) _ assms(3), of n s'] e by simp
next
  case (Read_bits_u128 n)
  obtain r t where e: "BitStream_read_bits_u128 s n = (r, t)" by force
  then have "t = s' \<and> r = Inl e" using assms(2) Read_bits_u128 by (cases r) simp_all
  then show ?thesis using BitStream_read_bits_u128_raises[OF assms(1) _ assms(3), of n s'] e by simp
next
  case (Write_bits v n)
  obtain r t where e: "BitStream_write_bits s v n = (r, t)" by force
  then have "t = s' \<and> r = Inl e" using assms(2) Write_bits by (cases r) simp_all
  then show ?thesis using BitStream_write_bits_frame[OF assms(1) e] assms(3) by auto
next
  case (Write_bits_u128 v n)
  obtain r t where e: "BitStream_write_bits_u128 s v n = (r, t)" by force
  then have "t = s' \<and> r = Inl e" using assms(2) Write_bits_u128 by (cases r) simp_all
  then show ?thesis using BitStream_write_bits_u128_frame[OF assms(1) e] assms(3) by auto
next
  case (Set_position p)
  obtain r t where e: "set_position s p = (r, t)" by force
  then have "t = s' \<and> r = Inl e" using assms(2) Set_position by (cases r) simp_all
  then show ?thesis using set_position_frame[OF assms(1) e] by auto
next
  case Reset
  then show ?thesis using assms by simp
next
  case (From_bytes data)
  then show ?thesis using assms by simp
qed

text \<open>
  C8: every BitStream obtained from the constructor by a sequence of successful
  operations (reads, writes, set\_position, reset, from\_bytes) has
  \<open>bit_length \<le> 8 * len(buffer)\<close> and \<open>position() \<le> bit_length\<close>.
\<close>

theorem C8_invariant:
  assumes "run_operations (BitStream_init data) xs = Some s"
  shows "bs_bit_length s \<le> 8 * int (length (bs_buffer s)) \<and> position s \<le> bs_bit_length s"
  using run_operations_inv[OF bs_inv_init assms] by (simp add: bs_inv_def)

theorem C8_invariant_witness:
  "run_operations (BitStream_init None) [Write_bits 5 3, Write_bits_u128 10 5, Reset, Read_bits 6]
     = Some \<lparr>bs_buffer = [170], bs_byte_pos = 0, bs_bit_pos = 6, bs_bit_length = 8\<rparr>
   \<and> bs_bit_length \<lparr>bs_buffer = [170], bs_byte_pos = 0, bs_bit_pos = 6, bs_bit_length = 8\<rparr>
       \<le> 8 * int (length (bs_buffer
             \<lparr>bs_buffer = [170], bs_byte_pos = 0, bs_bit_pos = 6, bs_bit_length = 8\<rparr>))
   \<and> position \<lparr>bs_buffer = [170], bs_byte_pos = 0, bs_bit_pos = 6, bs_bit_length = 8\<rparr>
       \<le> bs_bit_length \<lparr>bs_buffer = [170], bs_byte_pos = 0, bs_bit_pos = 6, bs_bit_length = 8\<rparr>"
proof -
  have r: "run_operations (BitStream_init None)
             [Write_bits 5 3, Write_bits_u128 10 5, Reset, Read_bits 6]
     = Some \<lparr>bs_buffer = [170], bs_byte_pos = 0, bs_bit_pos = 6, bs_bit_length = 8\<rparr>"
    by code_simp
  show ?thesis using C8_invariant[OF r] r by simp
qed

text \<open>
  C9: when read\_bits, read\_bits\_u128, write\_bits, write\_bits\_u128 or set\_position
  raises InvalidBitCountError or EndOfStreamError on such a BitStream, the position, the
  bit length and the buffer are as before the call: the stream is unchanged.
\<close>

theorem C9_atomic:
  assumes "run_operations (BitStream_init data) xs = Some s"
    "apply_operation x s = (Some e, s')"
    "e = InvalidBitCountError \<or> e = EndOfStreamError"
  shows "position s' = position s \<and> bs_bit_length s' = bs_bit_length s
     \<and> bs_buffer s' = bs_buffer s \<and> s' = s"
  using apply_operation_atomic[OF run_operations_inv[OF bs_inv_init assms(1)] assms(2,3)] by simp

theorem C9_atomic_witness:
  "run_operations (BitStream_init (Some [255, 1, 2, 3, 4, 5, 6, 7, 8, 9])) [Read_bits 4]
     = Some \<lparr>bs_buffer = [255, 1, 2, 3, 4, 5, 6, 7, 8, 9], bs_byte_pos = 0, bs_bit_pos = 4,
             bs_bit_length = 80\<rparr>
   \<and> apply_operation (Read_bits_u128 77)
        \<lparr>bs_buffer = [255, 1, 2, 3, 4, 5, 6, 7, 8, 9], bs_byte_pos = 0, bs_bit_pos = 4,
         bs_bit_length = 80\<rparr>
      = (Some EndOfStreamError,
         \<lparr>bs_buffer = [255, 1, 2, 3, 4, 5, 6, 7, 8, 9], bs_byte_pos = 0, bs_bit_pos = 4,
          bs_bit_length = 80\<rparr>)
   \<and> position \<lparr>bs_buffer = [255, 1, 2, 3, 4, 5, 6, 7, 8, 9], bs_byte_pos = 0, bs_bit_pos = 4,
               bs_bit_length = 80\<rparr> = 4"
proof -
  let ?S = "\<lparr>bs_buffer = [255, 1, 2, 3, 4, 5, 6, 7, 8, 9], bs_byte_pos = 0, bs_bit_pos = 4,
             bs_bit_length = 80\<rparr>"
  have r: "run_operations (BitStream_init (Some [255, 1, 2, 3, 4, 5, 6, 7, 8, 9])) [Read_bits 4]
     = Some ?S"
    by code_simp
  obtain s' where a: "apply_operation (Read_bits_u128 77) ?S = (Some EndOfStreamError, s')"
    by (simp add: BitStream_read_bits_u128_def position_def)
  have "position s' = position ?S \<and> bs_bit_length s' = bs_bit_length ?S
     \<and> bs_buffer s' = bs_buffer ?S \<and> s' = ?S"
    by (rule C9_atomic[OF r a]) simp
  then show ?thesis using r a by (simp add: position_def)
qed


section \<open>Round trip on a BitStream\<close>

lemma reachable_cursor:
  assumes "run_operations (BitStream_init data) xs = Some s" "0 \<le> position s"
  shows "0 \<le> bs_bit_pos s" "bs_bit_pos s < 8" "0 \<le> bs_byte_pos s"
proof -
  have i: "bs_inv s" by (rule run_operations_inv[OF bs_inv_init assms(1)])
  then show "0 \<le> bs_bit_pos s" "bs_bit_pos s < 8" by (simp_all add: bs_inv_def)
  then show "0 \<le> bs_byte_pos s" using assms(2) by (simp add: position_def)
qed

text \<open>
  C10, as the code has it: on every BitStream obtained from the constructor by
  successful operations, at a position \<open>p \<ge> 0\<close>, for every integer \<open>v\<close> (negative or
  wider than \<open>n\<close> bits included) and every \<open>n\<close> in 1..64, \<open>write_bits(v, n)\<close> raises
  nothing, the \<open>n\<close> stream bits from \<open>p\<close> on are the low \<open>n\<close> bits of \<open>v\<close>, most
  significant first, and reading \<open>n\<close> bits from \<open>p\<close> returns \<open>v mod 2^n\<close>.
\<close>

theorem C10_write_bits_keeps_low_bits:
  assumes "run_operations (BitStream_init data) xs = Some s" "0 \<le> position s"
    "1 \<le> n" "n \<le> 64"
  shows "\<exists>s1 s2 s3. BitStream_write_bits s v n = (Inr (), s1)
     \<and> (\<forall>i. position s \<le> i \<and> i < position s + n \<longrightarrow>
            bit_at (bs_buffer s1) i = bit v (nat (position s + n - 1 - i)))
     \<and> set_position s1 (position s) = (Inr (), s2)
     \<and> BitStream_read_bits s2 n = (Inr (v mod 2 ^ nat n), s3)"
proof -
  have "0 < n" using assms by simp
  from BitStream_write_then_read[OF reachable_cursor[OF assms(1,2)] this assms(4), of v]
  show ?thesis by (simp add: take_bit_eq_mod)
qed

theorem C10_write_bits_keeps_low_bits_witness:
  "run_operations (BitStream_init None) [] = Some (BitStream_init None)
   \<and> 0 \<le> position (BitStream_init None) \<and> (1::int) \<le> 3 \<and> (3::int) \<le> 64
   \<and> (\<exists>s1 s2 s3. BitStream_write_bits (BitStream_init None) (- 3) 3 = (Inr (), s1)
        \<and> bit_at (bs_buffer s1) 0 \<and> \<not> bit_at (bs_buffer s1) 1 \<and> bit_at (bs_buffer s1) 2
        \<and> set_position s1 0 = (Inr (), s2)
        \<and> BitStream_read_bits s2 3 = (Inr 5, s3))"
proof -
  have p: "position (BitStream_init None) = 0" by (simp add: position_def BitStream_init_def)
  have h: "run_operations (BitStream_init None) [] = Some (BitStream_init None)"
    "0 \<le> position (BitStream_init None)" "(1::int) \<le> 3" "(3::int) \<le> 64"
    by (simp_all add: p)
  obtain s1 s2 s3 where w: "BitStream_write_bits (BitStream_init None) (- 3) 3 = (Inr (), s1)"
     "\<forall>i. 0 \<le> i \<and> i < 3 \<longrightarrow> bit_at (bs_buffer s1) i = bit (- 3 :: int) (nat (3 - 1 - i))"
     "set_position s1 0 = (Inr (), s2)"
     "BitStream_read_bits s2 3 = (Inr (- 3 mod 2 ^ nat 3), s3)"
    using C10_write_bits_keeps_low_bits[OF h, of "- 3"] unfolding p by auto
  have "bit_at (bs_buffer s1) 0 = bit (- 3 :: int) 2" using w(2) by force
  moreover have "bit_at (bs_buffer s1) 1 = bit (- 3 :: int) 1" using w(2) by force
  moreover have "bit_at (bs_buffer s1) 2 = bit (- 3 :: int) 0" using w(2) by force
  moreover have "bit (- 3 :: int) 2" "\<not> bit (- 3 :: int) 1" "bit (- 3 :: int) 0"
    by (simp_all add: bit_iff_odd)
  moreover have "(- 3 :: int) mod 2 ^ nat 3 = 5" by simp
  ultimately show ?thesis using h w(1,3,4) by auto
qed

text \<open>
  The claim as stated, for every position, fails: \<open>set_position\<close> does not reject a
  negative position, there the index into the \<open>bytearray\<close> counts from the end, and a
  write that runs from position -8 of a one-byte stream over the start of the buffer
  overwrites its own first byte.  The 16 bits of -2 come back as 0xFEFE, not 0xFFFE.
\<close>

theorem C10_counterexample:
  "run_operations (BitStream_init (Some [0])) [Set_position (- 8)]
     = Some \<lparr>bs_buffer = [0], bs_byte_pos = - 1, bs_bit_pos = 0, bs_bit_length = 8\<rparr>
   \<and> position \<lparr>bs_buffer = [0], bs_byte_pos = - 1, bs_bit_pos = 0, bs_bit_length = 8\<rparr> = - 8
   \<and> BitStream_write_bits
        \<lparr>bs_buffer = [0], bs_byte_pos = - 1, bs_bit_pos = 0, bs_bit_length = 8\<rparr> (- 2) 16
      = (Inr (), \<lparr>bs_buffer = [254], bs_byte_pos = 1, bs_bit_pos = 0, bs_bit_length = 8\<rparr>)
   \<and> set_position \<lparr>bs_buffer = [254], bs_byte_pos = 1, bs_bit_pos = 0, bs_bit_length = 8\<rparr> (- 8)
      = (Inr (), \<lparr>bs_buffer = [254], bs_byte_pos = - 1, bs_bit_pos = 0, bs_bit_length = 8\<rparr>)
   \<and> BitStream_read_bits
        \<lparr>bs_buffer = [254], bs_byte_pos = - 1, bs_bit_pos = 0, bs_bit_length = 8\<rparr> 16
      = (Inr 65278, \<lparr>bs_buffer = [254], bs_byte_pos = 1, bs_bit_pos = 0, bs_bit_length = 8\<rparr>)
   \<and> (- 2 :: int) mod 2 ^ 16 = 65534"
  by code_simp

text \<open>
  C2, as the code has it: on every BitStream obtained from the constructor by
  successful operations, at a position \<open>p \<ge> 0\<close>, for \<open>n\<close> in 1..64 and
  \<open>0 \<le> v < 2^n\<close>, \<open>write_bits(v, n)\<close> followed by \<open>set_position(p)\<close> and
  \<open>read_bits(n)\<close> returns \<open>v\<close>; the same for \<open>n\<close> in 1..128 with
  \<open>write_bits_u128\<close> and \<open>read_bits_u128\<close>.
\<close>

theorem C2_round_trip:
  assumes "run_operations (BitStream_init data) xs = Some s" "0 \<le> position s"
    "1 \<le> n" "n \<le> 128" "0 \<le> v" "v < 2 ^ nat n"
  shows "(n \<le> 64 \<longrightarrow>
           (\<exists>s1 s2 s3. BitStream_write_bits s v n = (Inr (), s1)
              \<and> set_position s1 (position s) = (Inr (), s2)
              \<and> BitStream_read_bits s2 n = (Inr v, s3)))
       \<and> (\<exists>s1 s2 s3. BitStream_write_bits_u128 s v n = (Inr (), s1)
              \<and> set_position s1 (position s) = (Inr (), s2)
              \<and> BitStream_read_bits_u128 s2 n = (Inr v, s3))"
proof -
  note c = reachable_cursor[OF assms(1,2)]
  have n0: "0 < n" using assms by simp
  have tb: "take_bit (nat n) v = v" using assms(5,6) by (simp add: take_bit_int_eq_self)
  have "n \<le> 64 \<Longrightarrow> \<exists>s1 s2 s3. BitStream_write_bits s v n = (Inr (), s1)
              \<and> set_position s1 (position s) = (Inr (), s2)
              \<and> BitStream_read_bits s2 n = (Inr v, s3)"
    using BitStream_write_then_read[OF c n0, of v] unfolding tb by blast
  moreover have "\<exists>s1 s2 s3. BitStream_write_bits_u128 s v n = (Inr (), s1)
              \<and> set_position s1 (position s) = (Inr (), s2)
              \<and> BitStream_read_bits_u128 s2 n = (Inr v, s3)"
    using BitStream_write_then_read_u128[OF c n0 assms(4), of v] unfolding tb .
  ultimately show ?thesis by blast
qed

theorem C2_round_trip_witness:
  "run_operations (BitStream_init None) [Write_bits 5 3]
     = Some \<lparr>bs_buffer = [160], bs_byte_pos = 0, bs_bit_pos = 3, bs_bit_length = 3\<rparr>
   \<and> 0 \<le> position \<lparr>bs_buffer = [160], bs_byte_pos = 0, bs_bit_pos = 3, bs_bit_length = 3\<rparr>
   \<and> (1::int) \<le> 8 \<and> (8::int) \<le> 128 \<and> (0::int) \<le> 165 \<and> (165::int) < 2 ^ nat 8
   \<and> (\<exists>s1 s2 s3.
         BitStream_write_bits
           \<lparr>bs_buffer = [160], bs_byte_pos = 0, bs_bit_pos = 3, bs_bit_length = 3\<rparr> 165 8
           = (Inr (), s1)
       \<and> set_position s1 3 = (Inr (), s2)
       \<and> BitStream_read_bits s2 8 = (Inr 165, s3))
   \<and> (\<exists>s1 s2 s3.
         BitStream_write_bits_u128
           \<lparr>bs_buffer = [160], bs_byte_pos = 0, bs_bit_pos = 3, bs_bit_length = 3\<rparr> 165 8
           = (Inr (), s1)
       \<and> set_position s1 3 = (Inr (), s2)
       \<and> BitStream_read_bits_u128 s2 8 = (Inr 165, s3))"
proof -
  let ?S = "\<lparr>bs_buffer = [160], bs_byte_pos = 0, bs_bit_pos = 3, bs_bit_length = 3\<rparr>"
  have r: "run_operations (BitStream_init None) [Write_bits 5 3] = Some ?S" by code_simp
  have p: "position ?S = 3" by (simp add: position_def)
  have h: "0 \<le> position ?S" "(1::int) \<le> 8" "(8::int) \<le> 128" "(0::int) \<le> 165"
    "(165::int) < 2 ^ nat 8"
    by (simp_all add: p)
  show ?thesis using C2_round_trip[OF r h] r h unfolding p by simp
qed

text \<open>
  The claim as stated, for every position, fails at the negative position -8 of a
  one-byte stream: the 16 bits of 0xABCD written there come back as 0xCDCD.
\<close>

theorem C2_counterexample:
  "run_operations (BitStream_init (Some [0])) [Set_position (- 8)]
     = Some \<lparr>bs_buffer = [0], bs_byte_pos = - 1, bs_bit_pos = 0, bs_bit_length = 8\<rparr>
   \<and> position \<lparr>bs_buffer = [0], bs_byte_pos = - 1, bs_bit_pos = 0, bs_bit_length = 8\<rparr> = - 8
   \<and> BitStream_write_bits
        \<lparr>bs_buffer = [0], bs_byte_pos = - 1, bs_bit_pos = 0, bs_bit_length = 8\<rparr> 0xABCD 16
      = (Inr (), \<lparr>bs_buffer = [205], bs_byte_pos = 1, bs_bit_pos = 0, bs_bit_length = 8\<rparr>)
   \<and> set_position \<lparr>bs_buffer = [205], bs_byte_pos = 1, bs_bit_pos = 0, bs_bit_length = 8\<rparr> (- 8)
      = (Inr (), \<lparr>bs_buffer = [205], bs_byte_pos = - 1, bs_bit_pos = 0, bs_bit_length = 8\<rparr>)
   \<and> BitStream_read_bits
        \<lparr>bs_buffer = [205], bs_byte_pos = - 1, bs_bit_pos = 0, bs_bit_length = 8\<rparr> 16
      = (Inr 0xCDCD, \<lparr>bs_buffer = [205], bs_byte_pos = 1, bs_bit_pos = 0, bs_bit_length = 8\<rparr>)"
  by code_simp

section \<open>read\_bit\_value\<close>

lemma or_chunk_bound:
  assumes "0 \<le> res" "res < 2 ^ n" "k + sh \<le> n"
  shows "0 \<le> res OR push_bit sh (x AND (push_bit k 1 - 1))"
    "res OR push_bit sh (x AND (push_bit k 1 - 1)) < (2::int) ^ n"
proof -
  let ?e = "x AND (push_bit k 1 - 1)"
  have m: "push_bit k 1 - 1 = (mask k :: int)" by (simp add: mask_eq_exp_minus_1)
  have e: "?e = take_bit k x" unfolding m by (simp add: take_bit_eq_mask)
  have e0: "0 \<le> ?e" "?e < 2 ^ k" unfolding e by simp_all
  have p0: "0 \<le> push_bit sh ?e" using e0 by simp
  have "push_bit sh ?e < 2 ^ (sh + k)" using e0(2) by (simp add: push_bit_eq_mult power_add)
  also have "\<dots> \<le> 2 ^ n" using assms(3) by (intro power_increasing) simp_all
  finally have p1: "push_bit sh ?e < 2 ^ n" .
  show "0 \<le> res OR push_bit sh ?e" using assms(1) p0 by simp
  show "res OR push_bit sh ?e < 2 ^ n" using assms(1,2) p1 by (rule OR_upper)
qed

lemma BitStream_read_loop_body:
  assumes "bits_read < bit_count" "\<not> int (length (bs_buffer s)) \<le> bs_byte_pos s"
    "bytearray_get (bs_buffer s) (bs_byte_pos s) = Inr b"
    "\<not> min (bit_count - bits_read) (8 - bs_bit_pos s) < 0"
  shows "BitStream_read_loop bit_count s result bits_read =
     BitStream_read_loop bit_count
       (if bs_bit_pos s + min (bit_count - bits_read) (8 - bs_bit_pos s) = 8
        then s\<lparr>bs_byte_pos := bs_byte_pos s + 1, bs_bit_pos := 0\<rparr>
        else s\<lparr>bs_bit_pos := bs_bit_pos s + min (bit_count - bits_read) (8 - bs_bit_pos s)\<rparr>)
       (result OR push_bit (nat (bit_count - bits_read - min (bit_count - bits_read) (8 - bs_bit_pos s)))
          (drop_bit (nat (8 - bs_bit_pos s - min (bit_count - bits_read) (8 - bs_bit_pos s))) b
             AND (push_bit (nat (min (bit_count - bits_read) (8 - bs_bit_pos s))) 1 - 1)))
       (bits_read + min (bit_count - bits_read) (8 - bs_bit_pos s))"
  apply (subst BitStream_read_loop.simps)
  apply (simp only: assms if_True if_False sum.case Let_def)
  done

lemma BitStream_read_loop_range:
  assumes "0 \<le> res" "res < 2 ^ nat n" "0 \<le> br"
    "BitStream_read_loop n s res br = (Inr x, s')"
  shows "0 \<le> x \<and> x < 2 ^ nat n"
  using assms
proof (induction n s res br rule: BitStream_read_loop.induct)
  case (1 bit_count s result bits_read)
  show ?case
  proof (cases "bits_read < bit_count")
    case False
    then have "x = result" using "1.prems"(4) by (subst (asm) BitStream_read_loop.simps) simp
    then show ?thesis using "1.prems" by simp
  next
    case True
    show ?thesis
    proof (cases "bs_byte_pos s \<ge> int (length (bs_buffer s))")
      case True
      then have "x = result" using "1.prems"(4) \<open>bits_read < bit_count\<close>
        by (subst (asm) BitStream_read_loop.simps) (simp split: if_splits)
      then show ?thesis using "1.prems" by simp
    next
      case inb: False
      show ?thesis
      proof (cases "bytearray_get (bs_buffer s) (bs_byte_pos s)")
        case (Inl e)
        then show ?thesis using "1.prems"(4) True inb
          by (subst (asm) BitStream_read_loop.simps) simp
      next
        case (Inr b)
        show ?thesis
        proof (cases "min (bit_count - bits_read) (8 - bs_bit_pos s) < 0")
          case True
          have "BitStream_read_loop bit_count s result bits_read = (Inl ValueError, s)"
            apply (subst BitStream_read_loop.simps)
            apply (simp only: \<open>bits_read < bit_count\<close> inb Inr True if_True if_False sum.case Let_def)
            done
          then show ?thesis using "1.prems"(4) by simp
        next
          case k0: False
          note rec = "1.prems"(4)[unfolded BitStream_read_loop_body[OF True inb Inr k0]]
          have "nat (min (bit_count - bits_read) (8 - bs_bit_pos s))
                  + nat (bit_count - bits_read - min (bit_count - bits_read) (8 - bs_bit_pos s))
                \<le> nat bit_count"
            using k0 "1.prems"(3) by linarith
          note b = or_chunk_bound[OF "1.prems"(1,2) this]
          have br: "0 \<le> bits_read + min (bit_count - bits_read) (8 - bs_bit_pos s)"
            using k0 "1.prems"(3) by simp
          show ?thesis
            by (rule "1.IH"[OF True inb Inr refl refl k0 refl refl refl refl refl refl refl
                  b br rec])
        qed
      qed
    qed
  qed
qed


lemma BitStream_read_bits_range:
  assumes "BitStream_read_bits s n = (Inr x, s')"
  shows "0 < n \<and> n \<le> 64 \<and> 0 \<le> x \<and> x < 2 ^ nat n"
proof -
  have n: "0 < n" "n \<le> 64" and l: "BitStream_read_loop n s 0 0 = (Inr x, s')"
    using assms by (auto simp add: BitStream_read_bits_def split: if_splits)
  have "0 \<le> x \<and> x < 2 ^ nat n"
    by (rule BitStream_read_loop_range[OF _ _ _ l]) simp_all
  then show ?thesis using n by simp
qed

lemma BitStream_read_bits_u128_range:
  assumes "BitStream_read_bits_u128 s n = (Inr x, s')"
  shows "0 < n \<and> n \<le> 128 \<and> 0 \<le> x \<and> x < 2 ^ nat n"
proof (cases "n \<le> 64")
  case True
  then have "BitStream_read_bits s n = (Inr x, s')"
    using assms by (auto simp add: BitStream_read_bits_u128_def split: if_splits)
  from BitStream_read_bits_range[OF this] show ?thesis by simp
next
  case False
  have n: "n \<le> 128" using assms False
    by (auto simp add: BitStream_read_bits_u128_def split: if_splits)
  obtain r1 s1 where r1: "BitStream_read_bits s (n - 64) = (r1, s1)" by force
  obtain r2 s2 where r2: "BitStream_read_bits s1 64 = (r2, s2)" by force
  obtain hv lv where hv: "r1 = Inr hv" and lv: "r2 = Inr lv"
    and x: "x = push_bit 64 hv OR lv"
    using assms False n r1 r2
    by (cases r1; cases r2)
       (auto simp add: BitStream_read_bits_u128_def Let_def split: if_splits)
  have h: "0 \<le> hv" "hv < 2 ^ nat (n - 64)"
    using BitStream_read_bits_range[of s "n - 64" hv s1] r1 hv by simp_all
  have l: "0 \<le> lv" "lv < 2 ^ nat 64"
    using BitStream_read_bits_range[of s1 64 lv s2] r2 lv by simp_all
  have "push_bit 64 hv < 2 ^ (64 + nat (n - 64))"
    using h(2) by (simp add: push_bit_eq_mult power_add)
  moreover have "64 + nat (n - 64) = nat n" using False by simp
  ultimately have p: "push_bit 64 hv < 2 ^ nat n" by simp
  have "(2::int) ^ nat 64 \<le> 2 ^ nat n" using False by (intro power_increasing) simp_all
  then have l': "lv < 2 ^ nat n" using l(2) by linarith
  have "0 \<le> push_bit 64 hv" using h(1) by simp
  then have "push_bit 64 hv OR lv < 2 ^ nat n" using p l' by (rule OR_upper)
  moreover have "0 \<le> push_bit 64 hv OR lv" using h(1) l(1) by simp
  ultimately show ?thesis using False n x by simp
qed

lemma bit_lower_bound:
  assumes "0 \<le> (x::int)" "bit x m"
  shows "2 ^ m \<le> x"
proof (rule ccontr)
  assume "\<not> 2 ^ m \<le> x"
  then have "take_bit m x = x" using assms(1) by (simp add: take_bit_int_eq_self)
  then have "bit (take_bit m x) m" using assms(2) by simp
  then show False by (simp add: bit_take_bit_iff)
qed

lemma BitValue_init_of_raw:
  assumes "0 < n" "n \<le> 128" "0 \<le> raw" "raw < 2 ^ nat n"
  shows "BitValue_init (if sg \<and> raw AND push_bit (nat (n - 1)) 1 \<noteq> 0
                        then raw - push_bit (nat n) 1 else raw) (Some n)
         = Inr \<lparr>bv_value = (if sg \<and> bit raw (nat (n - 1)) then raw - 2 ^ nat n else raw),
                bv_bit_count = n,
                bv_is_signed = (sg \<and> bit raw (nat (n - 1)))\<rparr>"
proof -
  have sb: "raw AND push_bit (nat (n - 1)) 1 \<noteq> 0 \<longleftrightarrow> bit raw (nat (n - 1))"
    "raw AND 2 ^ nat (n - 1) \<noteq> 0 \<longleftrightarrow> bit raw (nat (n - 1))"
    using bit_iff_and_push_bit_not_eq_0[of raw "nat (n - 1)"] by simp_all
  have pw: "(2::int) ^ nat n = 2 * 2 ^ nat (n - 1)"
  proof -
    have "nat n = Suc (nat (n - 1))" using assms(1) by simp
    then show ?thesis by simp
  qed
  show ?thesis
  proof (cases "sg \<and> bit raw (nat (n - 1))")
    case True
    then have "2 ^ nat (n - 1) \<le> raw" using bit_lower_bound[OF assms(3)] by simp
    then show ?thesis using True assms pw
      by (simp add: BitValue_init_def Let_def sb)
  next
    case False
    then show ?thesis using assms
      by (auto simp add: BitValue_init_def Let_def sb)
  qed
qed

text \<open>
  C4, as the code has it: \<open>read_bit_value(n, is_signed)\<close> fails exactly when the read
  of \<open>n\<close> bits fails, and otherwise returns a BitValue with \<open>bit_count = n\<close>, with the
  value \<open>raw - 2^n\<close> exactly when \<open>is_signed\<close> is requested and bit \<open>n - 1\<close> of the raw
  read is set (\<open>raw\<close> otherwise), and with the \<open>is_signed\<close> tag true in exactly that
  case: the tag is the sign of the value, not the requested flag.
\<close>

theorem C4_read_bit_value:
  "BitStream_read_bit_value s n sg =
     (case BitStream_read_bits_u128 s n of
        (Inl e, s1) \<Rightarrow> (Inl e, s1)
      | (Inr raw, s1) \<Rightarrow>
          (Inr \<lparr>bv_value = (if sg \<and> bit raw (nat (n - 1)) then raw - 2 ^ nat n else raw),
                bv_bit_count = n,
                bv_is_signed = (sg \<and> bit raw (nat (n - 1)))\<rparr>, s1))"
proof -
  have same: "(if n \<le> 64 then BitStream_read_bits s n else BitStream_read_bits_u128 s n)
      = BitStream_read_bits_u128 s n"
    by (simp add: BitStream_read_bits_u128_def BitStream_read_bits_def)
  obtain r s1 where rd: "BitStream_read_bits_u128 s n = (r, s1)" by force
  show ?thesis
  proof (cases r)
    case (Inl e)
    then show ?thesis using rd by (simp add: BitStream_read_bit_value_def same)
  next
    case (Inr raw)
    then have "0 < n \<and> n \<le> 128 \<and> 0 \<le> raw \<and> raw < 2 ^ nat n"
      using BitStream_read_bits_u128_range[of s n raw s1] rd by simp
    then have "BitValue_init (if sg \<and> raw AND push_bit (nat (n - 1)) 1 \<noteq> 0
                        then raw - push_bit (nat n) 1 else raw) (Some n)
         = Inr \<lparr>bv_value = (if sg \<and> bit raw (nat (n - 1)) then raw - 2 ^ nat n else raw),
                bv_bit_count = n,
                bv_is_signed = (sg \<and> bit raw (nat (n - 1)))\<rparr>"
      by (intro BitValue_init_of_raw) simp_all
    moreover have "BitStream_read_bit_value s n sg =
       (case BitStream_read_bits_u128 s n of
          (Inl e, s1) \<Rightarrow> (Inl e, s1)
        | (Inr raw, s1) \<Rightarrow>
           (case BitValue_init (if sg \<and> raw AND push_bit (nat (n - 1)) 1 \<noteq> 0
                        then raw - push_bit (nat n) 1 else raw) (Some n) of
               Inl e \<Rightarrow> (Inl e, s1)
             | Inr bv \<Rightarrow> (Inr bv, s1)))"
      by (simp only: BitStream_read_bit_value_def same Let_def)
    ultimately show ?thesis unfolding rd Inr by (simp only: prod.case sum.case)
  qed
qed


theorem C4_read_bit_value_witness:
  "BitStream_read_bit_value (BitStream_init (Some [214])) 8 True =
     (Inr \<lparr>bv_value = - 42, bv_bit_count = 8, bv_is_signed = True\<rparr>,
      \<lparr>bs_buffer = [214], bs_byte_pos = 1, bs_bit_pos = 0, bs_bit_length = 8\<rparr>)"
proof -
  have r: "BitStream_read_bits_u128 (BitStream_init (Some [214])) 8 =
     (Inr 214, \<lparr>bs_buffer = [214], bs_byte_pos = 1, bs_bit_pos = 0, bs_bit_length = 8\<rparr>)"
    by code_simp
  have b: "bit (214::int) (nat (8 - 1))" by (simp add: bit_iff_odd)
  show ?thesis
    unfolding C4_read_bit_value[of "BitStream_init (Some [214])" 8 True] r
    using b by simp
qed

text \<open>
  The claim as stated fails: a signed read of the byte 0x05 returns a BitValue tagged
  unsigned, although \<open>is_signed = True\<close> was requested.
\<close>

theorem C4_counterexample:
  "BitStream_read_bit_value (BitStream_init (Some [5])) 8 True =
     (Inr \<lparr>bv_value = 5, bv_bit_count = 8, bv_is_signed = False\<rparr>,
      \<lparr>bs_buffer = [5], bs_byte_pos = 1, bs_bit_pos = 0, bs_bit_length = 8\<rparr>)"
  by code_simp

section \<open>End of the source in BitStreamReader.read\_bits\<close>

lemma rd_inv_init: "0 < cap \<Longrightarrow> rd_inv (BitStreamReader_init src cap)"
  by (simp add: rd_inv_def BitStreamReader_init_def)

lemma fill_buffer_facts:
  assumes "rd_inv r" "rd_buffer_size r \<le> rd_byte_pos r" "\<not> rd_eof r"
  shows "rd_inv (fill_buffer r)"
    "available_bits (fill_buffer r) = available_bits r"
    "rd_buffer_size (fill_buffer r) = 0 \<longleftrightarrow> available_bits r = 0"
    "rd_buffer_size (fill_buffer r) = 0 \<longleftrightarrow> rd_eof (fill_buffer r)"
    "rd_byte_pos (fill_buffer r) = 0" "rd_bit_pos (fill_buffer r) = 0"
  using assms
  by (auto simp add: rd_inv_def fill_buffer_def source_read_def available_bits_def Let_def
        split: prod.splits if_splits)


lemma available_bits_nonneg: "rd_inv r \<Longrightarrow> 0 \<le> available_bits r"
  by (auto simp add: rd_inv_def available_bits_def)

lemma available_bits_zero_iff:
  assumes "rd_inv r"
  shows "available_bits r = 0 \<longleftrightarrow>
     rd_buffer_size r \<le> rd_byte_pos r \<and>
     (rd_eof r \<or> length (src_data (rd_stream r)) \<le> src_pos (rd_stream r))"
  using assms by (auto simp add: rd_inv_def available_bits_def)


lemma available_bits_pending:
  assumes "rd_inv r"
  shows "available_bits r = 8 * int (length (rd_pending r)) - rd_bit_pos r"
  using assms by (auto simp add: rd_inv_def available_bits_def rd_pending_def)

lemma take_drop_source:
  "take k (drop p xs) @ drop (p + length (take k (drop p xs))) xs = drop p xs"
proof -
  define d where "d = drop p xs"
  have "drop (p + length (take k d)) xs = drop (length (take k d)) d"
    unfolding d_def by (simp add: add.commute)
  also have "\<dots> = drop k d" by (cases "k \<le> length d") (simp_all add: min_def)
  finally have "take k d @ drop (p + length (take k d)) xs = d" by simp
  then show ?thesis unfolding d_def .
qed

lemma fill_buffer_pending:
  assumes "rd_inv r" "rd_buffer_size r \<le> rd_byte_pos r" "\<not> rd_eof r"
  shows "rd_pending (fill_buffer r) = rd_pending r" "rd_bit_pos r = 0"
proof -
  show b0: "rd_bit_pos r = 0" using assms by (auto simp add: rd_inv_def)
  define bytes_read where
    "bytes_read = take (length (rd_buffer r)) (drop (src_pos (rd_stream r)) (src_data (rd_stream r)))"
  have "nat (rd_buffer_size r) \<le> nat (rd_byte_pos r)" using assms(2) by simp
  then have old: "rd_pending r = drop (src_pos (rd_stream r)) (src_data (rd_stream r))"
    by (simp add: rd_pending_def min.coboundedI2)
  have td: "bytes_read @ drop (src_pos (rd_stream r) + length bytes_read) (src_data (rd_stream r))
      = drop (src_pos (rd_stream r)) (src_data (rd_stream r))"
    unfolding bytes_read_def by (rule take_drop_source)
  show "rd_pending (fill_buffer r) = rd_pending r"
    unfolding old
  proof (cases "bytes_read = []")
    case True
    then show "rd_pending (fill_buffer r) = drop (src_pos (rd_stream r)) (src_data (rd_stream r))"
      using td
      by (simp add: fill_buffer_def source_read_def Let_def rd_pending_def
            flip: bytes_read_def)
  next
    case False
    then show "rd_pending (fill_buffer r) = drop (src_pos (rd_stream r)) (src_data (rd_stream r))"
      using td
      by (simp add: fill_buffer_def source_read_def Let_def rd_pending_def
            flip: bytes_read_def)
  qed
qed

lemma load_more_data_empty:
  assumes "rd_inv r" "available_bits r = 0"
  shows "\<exists>r'. load_more_data r res br =
            Inl (if br = 0 then (Inl EndOfStreamError, r') else (Inr res, r'))
         \<and> rd_inv r' \<and> available_bits r' = 0
         \<and> rd_pending r' = rd_pending r \<and> rd_bit_pos r' = rd_bit_pos r"
proof (cases "rd_eof r")
  case True
  then show ?thesis using assms available_bits_zero_iff[OF assms(1)]
    by (auto simp add: load_more_data_def)
next
  case False
  have b: "rd_buffer_size r \<le> rd_byte_pos r" using assms available_bits_zero_iff by blast
  note f = fill_buffer_facts[OF assms(1) b False]
  note p = fill_buffer_pending[OF assms(1) b False]
  have z: "rd_buffer_size (fill_buffer r) = 0" using f(3) assms(2) by simp
  have "rd_inv ((fill_buffer r)\<lparr>rd_eof := True\<rparr>)"
    using f(1,4) z by (simp add: rd_inv_def)
  moreover have "available_bits ((fill_buffer r)\<lparr>rd_eof := True\<rparr>) = 0"
    using z f(5) f(1) f(4) by (simp add: available_bits_def rd_inv_def)
  moreover have "rd_pending ((fill_buffer r)\<lparr>rd_eof := True\<rparr>) = rd_pending r"
    using p(1) by (simp add: rd_pending_def)
  moreover have "rd_bit_pos ((fill_buffer r)\<lparr>rd_eof := True\<rparr>) = rd_bit_pos r"
    using p(2) f(6) by simp
  ultimately show ?thesis using False b z
    by (auto simp add: load_more_data_def Let_def)
qed

lemma load_more_data_some:
  assumes "rd_inv r" "0 < available_bits r"
  shows "\<exists>r1. load_more_data r res br = Inr r1 \<and> rd_inv r1
     \<and> available_bits r1 = available_bits r \<and> rd_byte_pos r1 < rd_buffer_size r1
     \<and> rd_pending r1 = rd_pending r \<and> rd_bit_pos r1 = rd_bit_pos r"
proof (cases "rd_buffer_size r \<le> rd_byte_pos r")
  case False
  then show ?thesis using assms by (auto simp add: load_more_data_def)
next
  case True
  then have ne: "\<not> rd_eof r" using assms by (auto simp add: available_bits_def rd_inv_def)
  note f = fill_buffer_facts[OF assms(1) True ne]
  note p = fill_buffer_pending[OF assms(1) True ne]
  have nz: "rd_buffer_size (fill_buffer r) \<noteq> 0" using f(3) assms(2) by simp
  then have "rd_byte_pos (fill_buffer r) < rd_buffer_size (fill_buffer r)"
    using f(1,5) by (simp add: rd_inv_def)
  then show ?thesis using True ne nz f(1,2,6) p
    by (auto simp add: load_more_data_def Let_def)
qed

lemma rd_advance_facts:
  assumes "rd_inv r" "rd_byte_pos r < rd_buffer_size r" "0 < k" "rd_bit_pos r + k \<le> 8"
  shows "rd_inv (rd_advance r k)" "available_bits (rd_advance r k) = available_bits r - k"
    "k \<le> available_bits r"
  using assms by (auto simp add: rd_inv_def rd_advance_def available_bits_def)

lemma rd_pending_head:
  assumes "rd_inv r" "rd_byte_pos r < rd_buffer_size r"
  shows "rd_pending r = rd_buffer r ! nat (rd_byte_pos r)
           # (drop (nat (rd_byte_pos r + 1)) (take (nat (rd_buffer_size r)) (rd_buffer r))
              @ drop (src_pos (rd_stream r)) (src_data (rd_stream r)))"
proof -
  have l: "nat (rd_byte_pos r) < length (take (nat (rd_buffer_size r)) (rd_buffer r))"
    using assms by (auto simp add: rd_inv_def)
  have n: "nat (rd_byte_pos r + 1) = Suc (nat (rd_byte_pos r))"
    using assms unfolding rd_inv_def by linarith
  have "drop (nat (rd_byte_pos r)) (take (nat (rd_buffer_size r)) (rd_buffer r))
      = take (nat (rd_buffer_size r)) (rd_buffer r) ! nat (rd_byte_pos r)
        # drop (Suc (nat (rd_byte_pos r))) (take (nat (rd_buffer_size r)) (rd_buffer r))"
    using l by (rule Cons_nth_drop_Suc[symmetric])
  moreover have "take (nat (rd_buffer_size r)) (rd_buffer r) ! nat (rd_byte_pos r)
      = rd_buffer r ! nat (rd_byte_pos r)"
    using l by simp
  ultimately show ?thesis by (simp add: rd_pending_def n)
qed

lemma rd_advance_bits:
  assumes "rd_inv r" "rd_byte_pos r < rd_buffer_size r" "0 < k" "rd_bit_pos r + k \<le> 8"
    "0 \<le> i"
  shows "rd_bit (rd_advance r k) i = rd_bit r (k + i)"
proof (cases "rd_bit_pos r + k = 8")
  case False
  then show ?thesis
    by (simp add: rd_bit_def rd_advance_def rd_pending_def add.assoc)
next
  case True
  have p: "rd_pending r = rd_buffer r ! nat (rd_byte_pos r) # rd_pending (rd_advance r k)"
    using rd_pending_head[OF assms(1,2)] True by (simp add: rd_advance_def rd_pending_def)
  have b: "rd_bit_pos (rd_advance r k) = 0" using True by (simp add: rd_advance_def)
  have e: "rd_bit_pos r + (k + i) = 8 + i" using True by simp
  have d: "(8 + i) div 8 = 1 + i div 8" "(8 + i) mod 8 = i mod 8" by simp_all
  have n: "nat (1 + i div 8) = Suc (nat (i div 8))" using assms(5) by simp
  show ?thesis
    unfolding rd_bit_def b e d n by (simp add: p)
qed

lemma rd_chunk_bits:
  assumes "rd_inv r" "rd_byte_pos r < rd_buffer_size r" "0 < k" "rd_bit_pos r + k \<le> 8"
  shows "bit (drop_bit (nat (rd_bit_pos r)) (rd_buffer r ! nat (rd_byte_pos r))
                AND (push_bit (nat k) 1 - 1)) j
         \<longleftrightarrow> int j < k \<and> rd_bit r (int j)"
proof (cases "int j < k")
  case True
  have m: "push_bit (nat k) 1 - 1 = (mask (nat k) :: int)" by (simp add: mask_eq_exp_minus_1)
  have b0: "0 \<le> rd_bit_pos r" using assms(1) by (simp add: rd_inv_def)
  have r8: "0 \<le> rd_bit_pos r + int j" "rd_bit_pos r + int j < 8" using True assms(4) b0 by simp_all
  have dm: "(rd_bit_pos r + int j) div 8 = 0" "(rd_bit_pos r + int j) mod 8 = rd_bit_pos r + int j"
    using r8 by simp_all
  have "rd_bit r (int j) = bit (rd_buffer r ! nat (rd_byte_pos r)) (nat (rd_bit_pos r + int j))"
    unfolding rd_bit_def dm by (subst rd_pending_head[OF assms(1,2)]) simp
  moreover have "nat (rd_bit_pos r + int j) = nat (rd_bit_pos r) + j" using b0 by simp
  moreover have "j < nat k" using True by linarith
  ultimately show ?thesis using True unfolding m by (simp add: bit_simps)
next
  case False
  have m: "push_bit (nat k) 1 - 1 = (mask (nat k) :: int)" by (simp add: mask_eq_exp_minus_1)
  from False have "\<not> j < nat k" by linarith
  then show ?thesis using False unfolding m by (simp add: bit_simps)
qed

lemma BitStreamReader_read_loop_exit:
  assumes "bits_read < bit_count" "load_more_data r result bits_read = Inl out"
  shows "BitStreamReader_read_loop bit_count r result bits_read = out"
  apply (subst BitStreamReader_read_loop.simps)
  apply (simp only: assms if_True sum.case)
  done

lemma BitStreamReader_read_loop_body:
  assumes "bits_read < bit_count" "load_more_data r result bits_read = Inr r1"
    "bytearray_get (rd_buffer r1) (rd_byte_pos r1) = Inr b"
    "\<not> (min (bit_count - bits_read) (8 - rd_bit_pos r1) < 0 \<or> rd_bit_pos r1 < 0)"
  shows "BitStreamReader_read_loop bit_count r result bits_read =
     BitStreamReader_read_loop bit_count
       (rd_advance r1 (min (bit_count - bits_read) (8 - rd_bit_pos r1)))
       (result OR push_bit (nat bits_read)
          (drop_bit (nat (rd_bit_pos r1)) b
             AND (push_bit (nat (min (bit_count - bits_read) (8 - rd_bit_pos r1))) 1 - 1)))
       (bits_read + min (bit_count - bits_read) (8 - rd_bit_pos r1))"
  apply (subst BitStreamReader_read_loop.simps)
  apply (simp only: assms if_True if_False sum.case Let_def rd_advance_def)
  done




lemma rd_bit_cong:
  "rd_pending a = rd_pending b \<Longrightarrow> rd_bit_pos a = rd_bit_pos b \<Longrightarrow> rd_bit a i = rd_bit b i"
  by (simp add: rd_bit_def)

lemma join_chunks:
  assumes "0 \<le> br" "0 \<le> k"
  shows "(res OR push_bit (nat br) e) OR push_bit (nat (br + k)) X1
           = res OR push_bit (nat br) (e OR push_bit (nat k) (X1::int))"
proof -
  have "nat (br + k) = nat br + nat k" using assms by (simp add: nat_add_distrib)
  then show ?thesis
    by (rule_tac bit_eqI) (auto simp add: bit_simps)
qed

lemma BitStreamReader_read_loop_spec:
  assumes "rd_inv r" "0 \<le> br" "br \<le> n"
  shows "\<exists>out r'. BitStreamReader_read_loop n r res br = (out, r')
     \<and> rd_inv r'
     \<and> available_bits r' = available_bits r - min (n - br) (available_bits r)
     \<and> (\<forall>i. 0 \<le> i \<longrightarrow> rd_bit r' i = rd_bit r (min (n - br) (available_bits r) + i))
     \<and> (br = 0 \<and> 0 < n \<and> available_bits r = 0 \<longrightarrow> out = Inl EndOfStreamError)
     \<and> (\<not> (br = 0 \<and> 0 < n \<and> available_bits r = 0) \<longrightarrow>
          (\<exists>X. out = Inr (res OR push_bit (nat br) X)
             \<and> (\<forall>j. bit X j \<longleftrightarrow>
                    int j < min (n - br) (available_bits r) \<and> rd_bit r (int j))))"
  using assms
proof (induction "nat (n - br)" arbitrary: r res br rule: less_induct)
  case less
  note av0 = available_bits_nonneg[OF less.prems(1)]
  show ?case
  proof (cases "br < n")
    case False
    then have "BitStreamReader_read_loop n r res br = (Inr res, r)"
      by (subst BitStreamReader_read_loop.simps) simp
    moreover have "min (n - br) (available_bits r) = 0" using False less.prems av0 by simp
    moreover have "res = res OR push_bit (nat br) 0" by simp
    ultimately show ?thesis using less.prems False
      by (intro exI[of _ "Inr res"] exI[of _ r]) (auto intro: exI[of _ 0])
  next
    case True
    show ?thesis
    proof (cases "available_bits r = 0")
      case True
      from load_more_data_empty[OF less.prems(1) True, of res br]
      obtain r' where l: "load_more_data r res br =
            Inl (if br = 0 then (Inl EndOfStreamError, r') else (Inr res, r'))"
        "rd_inv r'" "available_bits r' = 0"
        "rd_pending r' = rd_pending r" "rd_bit_pos r' = rd_bit_pos r" by blast
      have lp: "BitStreamReader_read_loop n r res br =
              (if br = 0 then (Inl EndOfStreamError, r') else (Inr res, r'))"
        by (rule BitStreamReader_read_loop_exit[OF \<open>br < n\<close> l(1)])
      have bits: "\<forall>i. 0 \<le> i \<longrightarrow> rd_bit r' i = rd_bit r (min (n - br) (available_bits r) + i)"
        using True \<open>br < n\<close> rd_bit_cong[OF l(4,5)] by simp
      have m0: "min (n - br) (available_bits r) = 0" using True \<open>br < n\<close> by simp
      show ?thesis
      proof (cases "br = 0")
        case True
        then show ?thesis using lp l(2,3) bits m0 \<open>br < n\<close> \<open>available_bits r = 0\<close>
          by (intro exI[of _ "Inl EndOfStreamError"] exI[of _ r']) simp
      next
        case False
        have "res = res OR push_bit (nat br) 0" by simp
        then show ?thesis using lp l(2,3) bits False \<open>available_bits r = 0\<close> unfolding m0
          by (intro exI[of _ "Inr res"] exI[of _ r']) (auto intro: exI[of _ 0])
      qed
    next
      case False
      then have pos: "0 < available_bits r" using av0 by simp
      from load_more_data_some[OF less.prems(1) pos, of res br]
      obtain r1 where l: "load_more_data r res br = Inr r1" "rd_inv r1"
        "available_bits r1 = available_bits r" "rd_byte_pos r1 < rd_buffer_size r1"
        "rd_pending r1 = rd_pending r" "rd_bit_pos r1 = rd_bit_pos r" by blast
      have same: "rd_bit r1 i = rd_bit r i" for i by (rule rd_bit_cong[OF l(5,6)])
      define k where "k = min (n - br) (8 - rd_bit_pos r1)"
      have k: "0 < k" "rd_bit_pos r1 + k \<le> 8" "k \<le> n - br"
        using True l(2) by (auto simp add: k_def rd_inv_def)
      have "bytearray_index (rd_buffer r1) (rd_byte_pos r1) = Some (nat (rd_byte_pos r1))"
        using l(2,4) by (intro bytearray_index_in) (auto simp add: rd_inv_def)
      then have b: "bytearray_get (rd_buffer r1) (rd_byte_pos r1)
                      = Inr (rd_buffer r1 ! nat (rd_byte_pos r1))"
        by (simp add: bytearray_get_def)
      have g: "\<not> (min (n - br) (8 - rd_bit_pos r1) < 0 \<or> rd_bit_pos r1 < 0)"
        using k l(2) unfolding k_def rd_inv_def by linarith
      define e where "e = drop_bit (nat (rd_bit_pos r1)) (rd_buffer r1 ! nat (rd_byte_pos r1))
                            AND (push_bit (nat k) 1 - 1)"
      define res' where "res' = res OR push_bit (nat br) e"
      define r2 where "r2 = rd_advance r1 k"
      have step: "BitStreamReader_read_loop n r res br =
          BitStreamReader_read_loop n r2 res' (br + k)"
        using BitStreamReader_read_loop_body[OF True l(1) b g]
        by (simp only: k_def res'_def e_def r2_def)
      note adv = rd_advance_facts[OF l(2,4) k(1,2), folded r2_def]
      have ebit: "bit e j \<longleftrightarrow> int j < k \<and> rd_bit r (int j)" for j
        unfolding e_def same[symmetric] by (rule rd_chunk_bits[OF l(2,4) k(1,2)])
      have advbit: "rd_bit r2 i = rd_bit r (k + i)" if "0 \<le> i" for i
        unfolding r2_def same[symmetric] by (rule rd_advance_bits[OF l(2,4) k(1,2) that])
      define c1 where "c1 = min (n - (br + k)) (available_bits r2)"
      have c1: "0 \<le> c1" "k + c1 = min (n - br) (available_bits r)"
        using adv(2,3) l(3) k by (simp_all add: c1_def min_def)
      have "\<exists>out r'. BitStreamReader_read_loop n r2 res' (br + k) = (out, r')
         \<and> rd_inv r'
         \<and> available_bits r' = available_bits r2 - min (n - (br + k)) (available_bits r2)
         \<and> (\<forall>i. 0 \<le> i \<longrightarrow> rd_bit r' i = rd_bit r2 (min (n - (br + k)) (available_bits r2) + i))
         \<and> (br + k = 0 \<and> 0 < n \<and> available_bits r2 = 0 \<longrightarrow> out = Inl EndOfStreamError)
         \<and> (\<not> (br + k = 0 \<and> 0 < n \<and> available_bits r2 = 0) \<longrightarrow>
              (\<exists>X. out = Inr (res' OR push_bit (nat (br + k)) X)
                 \<and> (\<forall>j. bit X j \<longleftrightarrow>
                    int j < min (n - (br + k)) (available_bits r2) \<and> rd_bit r2 (int j))))"
      proof (rule less.hyps)
        show "nat (n - (br + k)) < nat (n - br)" using k True by linarith
        show "rd_inv r2" by (rule adv)
        show "0 \<le> br + k" using k less.prems by simp
        show "br + k \<le> n" using k by simp
      qed
      then obtain out r' X1 where o:
        "BitStreamReader_read_loop n r2 res' (br + k) = (out, r')"
        "rd_inv r'"
        "available_bits r' = available_bits r2 - c1"
        "\<And>i. 0 \<le> i \<Longrightarrow> rd_bit r' i = rd_bit r2 (c1 + i)"
        "out = Inr (res' OR push_bit (nat (br + k)) X1)"
        "\<And>j. bit X1 j \<longleftrightarrow> int j < c1 \<and> rd_bit r2 (int j)"
        unfolding c1_def[symmetric] using k(1) less.prems(2) by auto
      define X where "X = e OR push_bit (nat k) X1"
      have out: "out = Inr (res OR push_bit (nat br) X)"
        unfolding o(5) res'_def X_def using join_chunks[OF less.prems(2), of k res e X1] k(1)
        by simp
      have Xbit: "bit X j \<longleftrightarrow> int j < k + c1 \<and> rd_bit r (int j)" for j
      proof (cases "int j < k")
        case True
        then have "\<not> nat k \<le> j" by linarith
        then show ?thesis using True c1(1) by (simp add: X_def bit_simps ebit)
      next
        case False
        then have le: "nat k \<le> j" by linarith
        have ij: "int (j - nat k) = int j - k" using le k(1) by linarith
        have "rd_bit r2 (int j - k) = rd_bit r (k + (int j - k))"
          using False by (intro advbit) simp
        then have "rd_bit r2 (int j - k) = rd_bit r (int j)" by simp
        moreover have "int j - k < c1 \<longleftrightarrow> int j < k + c1" by linarith
        ultimately show ?thesis using False le
          by (simp add: X_def bit_simps ebit o(6) ij)
      qed
      have post: "rd_bit r' i = rd_bit r (k + c1 + i)" if "0 \<le> i" for i
      proof -
        have "rd_bit r' i = rd_bit r2 (c1 + i)" using that by (rule o(4))
        also have "\<dots> = rd_bit r (k + (c1 + i))" using that c1(1) by (intro advbit) simp
        finally show ?thesis by (simp add: add.assoc)
      qed
      have av: "available_bits r' = available_bits r - (k + c1)"
        using o(3) adv(2) l(3) by simp
      show ?thesis
        unfolding step o(1) c1(2)[symmetric]
        using o(2) av post out Xbit False
        by (intro exI[of _ out] exI[of _ r']) auto
    qed
  qed
qed


lemma BitStreamReader_read_bits_spec:
  assumes "rd_inv r" "0 < n" "n \<le> 64"
  shows "\<exists>out r'. BitStreamReader_read_bits r n = (out, r')
     \<and> rd_inv r'
     \<and> available_bits r' = available_bits r - min n (available_bits r)
     \<and> (\<forall>i. 0 \<le> i \<longrightarrow> rd_bit r' i = rd_bit r (min n (available_bits r) + i))
     \<and> (available_bits r = 0 \<longrightarrow> out = Inl EndOfStreamError)
     \<and> (available_bits r \<noteq> 0 \<longrightarrow>
          (\<exists>x. out = Inr x
             \<and> (\<forall>j. bit x j \<longleftrightarrow> int j < min n (available_bits r) \<and> rd_bit r (int j))))"
proof -
  have z: "(0::int) \<le> 0" "(0::int) \<le> n" using assms by simp_all
  from BitStreamReader_read_loop_spec[OF assms(1) z, of 0]
  obtain out r' where l: "BitStreamReader_read_loop n r 0 0 = (out, r')" "rd_inv r'"
     "available_bits r' = available_bits r - min n (available_bits r)"
     "\<forall>i. 0 \<le> i \<longrightarrow> rd_bit r' i = rd_bit r (min n (available_bits r) + i)"
     "available_bits r = 0 \<Longrightarrow> out = Inl EndOfStreamError"
     "available_bits r \<noteq> 0 \<Longrightarrow>
         \<exists>X. out = Inr (0 OR push_bit (nat 0) X)
           \<and> (\<forall>j. bit X j \<longleftrightarrow> int j < min n (available_bits r) \<and> rd_bit r (int j))"
    using assms(2) by auto
  have "BitStreamReader_read_bits r n = (out, r')"
    using assms l(1) by (simp add: BitStreamReader_read_bits_def)
  moreover have "available_bits r \<noteq> 0 \<Longrightarrow>
         \<exists>x. out = Inr x
           \<and> (\<forall>j. bit x j \<longleftrightarrow> int j < min n (available_bits r) \<and> rd_bit r (int j))"
    using l(6) by simp
  ultimately show ?thesis using l(2,3,4,5) by blast
qed


lemma BitStreamReader_read_bits_inv:
  assumes "rd_inv r"
  shows "rd_inv (snd (BitStreamReader_read_bits r n))"
proof (cases "0 < n \<and> n \<le> 64")
  case True
  then show ?thesis using BitStreamReader_read_bits_spec[OF assms, of n] by auto
next
  case False
  then show ?thesis using assms by (auto simp add: BitStreamReader_read_bits_def)
qed

lemma BitStreamReader_read_bits_u128_inv:
  assumes "rd_inv r"
  shows "rd_inv (snd (BitStreamReader_read_bits_u128 r n))"
proof -
  obtain o1 r1 where a: "BitStreamReader_read_bits r 64 = (o1, r1)" by force
  obtain o2 r2 where b: "BitStreamReader_read_bits r1 (n - 64) = (o2, r2)" by force
  have i1: "rd_inv r1" using BitStreamReader_read_bits_inv[OF assms, of 64] a by simp
  have i2: "rd_inv r2" using BitStreamReader_read_bits_inv[OF i1, of "n - 64"] b by simp
  show ?thesis
    using assms BitStreamReader_read_bits_inv[OF assms, of n] a b i1 i2
    by (cases o1; cases o2) (auto simp add: BitStreamReader_read_bits_u128_def Let_def)
qed

lemma BitStreamReader_after_inv:
  "rd_inv r \<Longrightarrow> rd_inv (BitStreamReader_after r ns)"
  by (induction ns arbitrary: r) (simp_all add: BitStreamReader_read_bits_u128_inv)

text \<open>
  On such a reader \<open>is_eof\<close> is the end-of-source flag and leaves the reader as it is
  (the probe of the source is never reached), and the flag is only set when no bit is left.
\<close>

lemma BitStreamReader_is_eof_flag:
  assumes "0 < cap" "r = BitStreamReader_after (BitStreamReader_init src cap) ns"
  shows "BitStreamReader_is_eof r = (rd_eof r, r) \<and> (rd_eof r \<longrightarrow> available_bits r = 0)"
proof -
  have "rd_inv r" unfolding assms(2) by (intro BitStreamReader_after_inv rd_inv_init assms(1))
  then show ?thesis
    by (auto simp add: BitStreamReader_is_eof_def rd_inv_def available_bits_def)
qed




section \<open>Writer and reader on concrete inputs\<close>

text \<open>
  C1 at a failing input: one bit of value 1 written by the writer (default buffer size)
  and flushed is the byte 0x80, because the writer places the bits from the top of the
  byte; the reader takes its first bit from the bottom of the byte and returns 0.
\<close>

theorem C1_one_bit_not_read_back:
  "written_bytes 4096 [(1, 1)] = [128] \<and> write_then_read 4096 [(1, 1)] = [Inr 0]"
  by code_simp

text \<open>
  C6 at a failing input: after the 8 bits of the one-byte source 0xFF have been read,
  the source is exhausted and the buffer is consumed, and \<open>is_eof\<close> is False.
\<close>

theorem C6_is_eof_after_last_bit:
  "(case BitStreamReader_read_bits (BitStreamReader_init \<lparr>src_data = [255], src_pos = 0\<rparr> 4096) 8 of
      (x, r) \<Rightarrow> (x, fst (BitStreamReader_is_eof r), rd_byte_pos r, rd_buffer_size r,
                  src_pos (rd_stream r), rd_eof r))
   = (Inr 255, False, 1, 1, 1, False)"
  by code_simp

text \<open>
  C7 at a failing input: with a buffer of 2 bytes, after 16 one bits, 8 zero bits and a
  single one bit, the flushed last byte is 0xFF: its seven unwritten bits are what the
  first pass through the buffer left in byte 1, which \<open>_flush_buffer\<close> does not clear.
\<close>

theorem C7_stale_bits_in_last_byte:
  "written_bytes 2 [(0xFFFF, 16), (0, 8), (1, 1)] = [255, 255, 0, 255]"
  by code_simp

text \<open>The other half of C7 holds: a second \<open>flush()\<close> right after a first one writes nothing.\<close>

lemma flush_twice:
  "BitStreamWriter_flush (snd (BitStreamWriter_flush w))
     = (Inr (), snd (BitStreamWriter_flush w))"
  by (auto simp add: BitStreamWriter_flush_def flush_buffer_def Let_def
        split: sum.splits if_splits)

section \<open>The concrete read scenario\<close>

text \<open>
  C3: on a BitStream made from the bytes 0xA5, 0x5A, the reads of 1, 3, 4 and 8 bits
  return 1, 2, 5 and 0x5A, and the next read of 1 bit raises EndOfStreamError.
\<close>

theorem C3_read_scenario:
  "BitStream_read_sequence (BitStream_init (Some [0xA5, 0x5A])) [1, 3, 4, 8, 1]
     = [Inr 1, Inr 2, Inr 5, Inr 0x5A, Inl EndOfStreamError]"
  by code_simp

end
